theory Spec2Isabelle
  imports Main
begin

section \<open>Scoped release (defer.h)\<close>

text \<open>
  \<^verbatim>\<open>Defer<Callback>\<close> holds a callback and the flag \<^verbatim>\<open>called\<close>. Invoking the callback is
  an effect: the model appends the callback to a log of the invocations made so far. A
  callback may throw; \<open>throws c\<close> tells whether \<open>c\<close> does.
\<close>

record 'c Defer =
  callback :: 'c
  called :: bool



definition Defer_passed :: "'c Defer \<Rightarrow> bool" where
  "Defer_passed d = called d"









section \<open>Waiting on the condition variable (guard.h)\<close>

text \<open>
  \<^verbatim>\<open>EnableConditionNotification::waitForNotification(predicate)\<close> is
  \<^verbatim>\<open>_cv.wait(*_lock, predicate)\<close>, that is \<^verbatim>\<open>while (!predicate()) wait(lock);\<close>. Each
  \<^verbatim>\<open>wait\<close> releases the lock, blocks until the thread is woken, and takes the lock again;
  in between, other threads have changed the guarded state. The model is given these
  changes as a list \<open>env\<close>, one function per wake-up. When the list is used up and the
  predicate is still false, the thread is never woken again: the result is \<open>None\<close>.
  Otherwise the result is the state in which the predicate held and the wake-ups left.
  The callers below wait inside \<^verbatim>\<open>Guard::lock\<close>, which has installed \<^verbatim>\<open>_lock\<close>, so the
  \<^verbatim>\<open>std::logic_error\<close> of the unlocked case does not arise there.
\<close>

fun waitForNotification :: "('s \<Rightarrow> bool) \<Rightarrow> ('s \<Rightarrow> 's) list \<Rightarrow> 's \<Rightarrow> ('s \<times> ('s \<Rightarrow> 's) list) option" where
  "waitForNotification predicate [] s = (if predicate s then Some (s, []) else None)"
| "waitForNotification predicate (step # env) s =
     (if predicate s then Some (s, step # env) else waitForNotification predicate env (step s))"

lemma waitForNotification_holds:
  "waitForNotification predicate env s = Some (s', env') \<Longrightarrow> predicate s'"
  by (induction env arbitrary: s) (auto split: if_splits)

lemma waitForNotification_suffix:
  "waitForNotification predicate env s = Some (s', env') \<Longrightarrow> length env' \<le> length env"
  by (induction env arbitrary: s) (auto split: if_splits simp: le_Suc_eq)

lemma waitForNotification_progress:
  "waitForNotification predicate env s = Some (s', env') \<Longrightarrow>
     (s' = s \<and> env' = env) \<or> length env' < length env"
  by (cases env) (auto split: if_splits dest: waitForNotification_suffix)

text \<open>
  Where several objects have a condition variable each, a thread that waits on one of
  them is woken by a notification of that one only. Here \<open>env\<close> lists the steps of the
  other threads, and \<open>notifies s s'\<close> tells whether the step from \<open>s\<close> to \<open>s'\<close> notified the
  condition variable waited on. A thread that is not notified stays blocked and does not
  evaluate the predicate (C++ allows a spurious wake-up, but nothing makes one happen).
  When every step notifies, this is \<open>waitForNotification\<close>.
\<close>

fun blocked :: "('s \<Rightarrow> 's \<Rightarrow> bool) \<Rightarrow> ('s \<Rightarrow> bool) \<Rightarrow> ('s \<Rightarrow> 's) list \<Rightarrow> 's \<Rightarrow> ('s \<times> ('s \<Rightarrow> 's) list) option" where
  "blocked notifies predicate [] s = None"
| "blocked notifies predicate (step # env) s =
     (if notifies s (step s) \<and> predicate (step s) then Some (step s, env)
      else blocked notifies predicate env (step s))"

definition waitForNotification_cv ::
  "('s \<Rightarrow> 's \<Rightarrow> bool) \<Rightarrow> ('s \<Rightarrow> bool) \<Rightarrow> ('s \<Rightarrow> 's) list \<Rightarrow> 's \<Rightarrow> ('s \<times> ('s \<Rightarrow> 's) list) option" where
  "waitForNotification_cv notifies predicate env s =
     (if predicate s then Some (s, env) else blocked notifies predicate env s)"

section \<open>The state engine (state.h)\<close>

text \<open>
  A phase object lives on the heap and is reached through a \<^verbatim>\<open>std::shared_ptr\<close>.
  Two handles are equal when they point to the same object, so a non-null handle is
  modelled by the address of its object, and a possibly null one by an optional address.
\<close>

type_synonym addr = nat

text \<open>
  \<^verbatim>\<open>Request<State>\<close>: the value a phase method returns. The two constructors of the
  source are \<open>Request_bool\<close> (\<^verbatim>\<open>Request(bool result = false)\<close>, no new phase) and
  \<open>Request_ptr\<close> (\<^verbatim>\<open>Request(std::shared_ptr<State> newState)\<close>, where \<^verbatim>\<open>result\<close> is
  the truth value of the pointer).
\<close>

record Request =
  result :: bool
  newState :: "addr option"

definition Request_bool :: "bool \<Rightarrow> Request" where
  "Request_bool r = \<lparr>result = r, newState = None\<rparr>"

definition Request_ptr :: "addr option \<Rightarrow> Request" where
  "Request_ptr p = \<lparr>result = (p \<noteq> None), newState = p\<rparr>"

text \<open>
  \<^verbatim>\<open>StateChanged::operator()\<close>: the witness handed to a method. It holds references to
  the guarded handle and to the snapshot, and compares them when it is invoked.
\<close>

definition StateChanged :: "addr \<Rightarrow> addr \<Rightarrow> bool" where
  "StateChanged shared persistent = (shared \<noteq> persistent)"

text \<open>
  \<^verbatim>\<open>BaseSwitcher::operator()(state, call)\<close>. The guarded handle \<open>state\<close> is passed by
  reference; the invoked method may suspend on the condition variable, and while it is
  suspended other threads may replace the handle. The method is therefore a function of
  the snapshot \<open>persistent\<close>, of the guarded handle and of the rest of the world \<open>w\<close>; it
  yields \<open>None\<close> when it never returns, and otherwise what it returned or threw
  (\<open>Inl\<close> the exception) together with the guarded handle and the world at that moment.
  An exception leaves the function at the call; otherwise the three statements after the
  call are those of the source.
\<close>

definition BaseSwitcher ::
  "addr \<Rightarrow> 'w \<Rightarrow> (addr \<Rightarrow> addr \<Rightarrow> 'w \<Rightarrow> (('e + Request) \<times> addr \<times> 'w) option)
     \<Rightarrow> (('e + bool) \<times> addr \<times> 'w) option" where
  "BaseSwitcher state w call =
     (let persistent = state in
      case call persistent state w of
        None \<Rightarrow> None
      | Some (Inl e, state1, w1) \<Rightarrow> Some (Inl e, state1, w1)
      | Some (Inr req, state1, w1) \<Rightarrow>
          if state1 \<noteq> persistent then Some (Inr False, state1, w1)
          else (case newState req of
                  Some p \<Rightarrow> if result req then Some (Inr (result req), p, w1)
                            else Some (Inr (result req), state1, w1)
                | None \<Rightarrow> Some (Inr (result req), state1, w1)))"

text \<open>
  A method that is suspended while another thread installs the phase at address 1, and
  then accepts in place.
\<close>

definition stale_accept :: "addr \<Rightarrow> addr \<Rightarrow> unit \<Rightarrow> ((unit + Request) \<times> addr \<times> unit) option" where
  "stale_accept persistent state w = Some (Inr (Request_bool True), 1, w)"

text \<open>A method that returns the request \<open>req\<close> and touches nothing.\<close>

definition returns_request :: "Request \<Rightarrow> addr \<Rightarrow> addr \<Rightarrow> unit \<Rightarrow> ((unit + Request) \<times> addr \<times> unit) option" where
  "returns_request req persistent state w = Some (Inr req, state, w)"

section \<open>The worker pool (thread_pool.cpp)\<close>

text \<open>
  \<^verbatim>\<open>ThreadPool::Task\<close> is \<^verbatim>\<open>std::function<void()>\<close>, which may be empty: a task is an
  optional value, \<open>None\<close> the empty function. The calls of \<^verbatim>\<open>notifyOne\<close> and \<^verbatim>\<open>notifyAll\<close>
  on the condition variable of a queue are recorded in the order they are made.
\<close>

datatype notification = NotifyOne | NotifyAll

record 'a TaskQueue =
  TaskQueue_quit :: bool
  TaskQueue_queue :: "'a option list"
  TaskQueue_signals :: "notification list"

definition TaskQueue_init :: "'a TaskQueue" where
  "TaskQueue_init = \<lparr>TaskQueue_quit = False, TaskQueue_queue = [], TaskQueue_signals = []\<rparr>"

definition TaskQueue_addTask :: "'a option \<Rightarrow> 'a TaskQueue \<Rightarrow> bool \<times> 'a TaskQueue" where
  "TaskQueue_addTask task q =
     (if TaskQueue_quit q \<or> task = None then (False, q)
      else (True, q\<lparr>TaskQueue_queue := TaskQueue_queue q @ [task],
                      TaskQueue_signals := TaskQueue_signals q @ [NotifyOne]\<rparr>))"

definition TaskQueue_stop :: "'a TaskQueue \<Rightarrow> 'a TaskQueue" where
  "TaskQueue_stop q = q\<lparr>TaskQueue_quit := True, TaskQueue_signals := TaskQueue_signals q @ [NotifyAll]\<rparr>"

text \<open>
  \<^verbatim>\<open>TaskQueue::getTask\<close>: the loop \<^verbatim>\<open>while (!_quit)\<close> around the wait. The result is \<open>None\<close>
  when the call never returns; otherwise the task returned (\<open>None\<close> for the empty task of
  \<^verbatim>\<open>return {}\<close>), the queue, and the wake-ups left.
\<close>

function TaskQueue_getTask ::
  "('a TaskQueue \<Rightarrow> 'a TaskQueue) list \<Rightarrow> 'a TaskQueue
     \<Rightarrow> ('a option \<times> 'a TaskQueue \<times> ('a TaskQueue \<Rightarrow> 'a TaskQueue) list) option" where
  "TaskQueue_getTask env q =
     (if \<not> TaskQueue_quit q then
        (case waitForNotification (\<lambda>q. TaskQueue_quit q \<or> TaskQueue_queue q \<noteq> []) env q of
           None \<Rightarrow> None
         | Some (q1, env1) \<Rightarrow>
             if TaskQueue_queue q1 \<noteq> []
             then Some (hd (TaskQueue_queue q1), q1\<lparr>TaskQueue_queue := tl (TaskQueue_queue q1)\<rparr>, env1)
             else TaskQueue_getTask env1 q1)
      else Some (None, q, env))"
  by pat_completeness auto
termination TaskQueue_getTask
  apply (relation "measure (\<lambda>(env, q). if TaskQueue_quit q then 0 else 1)")
   apply simp
  apply (auto dest: waitForNotification_holds)
  done

declare TaskQueue_getTask.simps [simp del]

lemma TaskQueue_getTask_progress:
  assumes "TaskQueue_getTask env q = Some (Some task, q1, env1)"
  shows "length env1 < length env
       \<or> (length env1 = length env \<and> length (TaskQueue_queue q1) < length (TaskQueue_queue q))"
proof -
  let ?P = "\<lambda>q. TaskQueue_quit q \<or> TaskQueue_queue q \<noteq> []"
  note got = assms [unfolded TaskQueue_getTask.simps [of env q]]
  from got have nq: "\<not> TaskQueue_quit q"
    by (auto split: if_splits)
  with got obtain q' env' where w: "waitForNotification ?P env q = Some (q', env')"
    by (auto split: option.splits)
  have ne: "TaskQueue_queue q' \<noteq> []"
  proof
    assume e: "TaskQueue_queue q' = []"
    with waitForNotification_holds [OF w] have "TaskQueue_quit q'" by simp
    with got nq w e show False by (simp add: TaskQueue_getTask.simps [of env' q'])
  qed
  with got nq w have r: "q1 = q'\<lparr>TaskQueue_queue := tl (TaskQueue_queue q')\<rparr>" "env1 = env'"
    by auto
  from waitForNotification_progress [OF w] show ?thesis
  proof
    assume "q' = q \<and> env' = env"
    with r ne show ?thesis by simp
  next
    assume "length env' < length env"
    with r show ?thesis by simp
  qed
qed

text \<open>
  A task runs in a world of type \<open>'k\<close>: it changes the world, and returns normally (\<open>None\<close>)
  or throws an exception \<open>e\<close> (\<open>Some e\<close>). The exception handler of the pool is such a
  function of the exception, or absent (an empty \<^verbatim>\<open>std::function\<close>).

  The pool: its handler and its queue (the worker threads are the callers of
  \<open>SimpleThreadPool_run\<close>). \<^verbatim>\<open>addTask\<close> forwards to the queue under its lock; the
  destructor stops the queue and joins the workers.
\<close>

record ('e, 'k) SimpleThreadPool =
  SimpleThreadPool_handler :: "('e \<Rightarrow> 'k \<Rightarrow> 'e option \<times> 'k) option"
  SimpleThreadPool_queue :: "('k \<Rightarrow> 'e option \<times> 'k) TaskQueue"

definition createSimple :: "('e \<Rightarrow> 'k \<Rightarrow> 'e option \<times> 'k) option \<Rightarrow> ('e, 'k) SimpleThreadPool" where
  "createSimple handler = \<lparr>SimpleThreadPool_handler = handler, SimpleThreadPool_queue = TaskQueue_init\<rparr>"

definition SimpleThreadPool_addTask ::
  "('k \<Rightarrow> 'e option \<times> 'k) option \<Rightarrow> ('e, 'k) SimpleThreadPool \<Rightarrow> bool \<times> ('e, 'k) SimpleThreadPool" where
  "SimpleThreadPool_addTask task pool =
     (case TaskQueue_addTask task (SimpleThreadPool_queue pool) of
        (r, q) \<Rightarrow> (r, pool\<lparr>SimpleThreadPool_queue := q\<rparr>))"

definition SimpleThreadPool_destroy :: "('e, 'k) SimpleThreadPool \<Rightarrow> ('e, 'k) SimpleThreadPool" where
  "SimpleThreadPool_destroy pool = pool\<lparr>SimpleThreadPool_queue := TaskQueue_stop (SimpleThreadPool_queue pool)\<rparr>"

text \<open>
  \<^verbatim>\<open>SimpleThreadPool::run\<close>, the loop of one worker. It ends when \<^verbatim>\<open>getTask\<close> returns the
  empty task (\<open>Returned\<close>), or in \<^verbatim>\<open>std::terminate\<close> (\<open>Terminated\<close>): when a task throws
  and there is no handler, or when the handler throws, since \<^verbatim>\<open>run\<close> is \<^verbatim>\<open>noexcept\<close>.
  The wake-ups \<open>env\<close> are those of the waits inside \<^verbatim>\<open>getTask\<close>.
\<close>

datatype 'k run_end = Returned 'k | Terminated 'k

function SimpleThreadPool_run ::
  "(('k \<Rightarrow> 'e option \<times> 'k) TaskQueue \<Rightarrow> ('k \<Rightarrow> 'e option \<times> 'k) TaskQueue) list
     \<Rightarrow> ('e, 'k) SimpleThreadPool \<Rightarrow> 'k
     \<Rightarrow> ('k run_end \<times> ('e, 'k) SimpleThreadPool) option" where
  "SimpleThreadPool_run env pool k =
     (case TaskQueue_getTask env (SimpleThreadPool_queue pool) of
        None \<Rightarrow> None
      | Some (None, q1, env1) \<Rightarrow> Some (Returned k, pool\<lparr>SimpleThreadPool_queue := q1\<rparr>)
      | Some (Some task, q1, env1) \<Rightarrow>
          (case task k of
             (None, k1) \<Rightarrow> SimpleThreadPool_run env1 (pool\<lparr>SimpleThreadPool_queue := q1\<rparr>) k1
           | (Some e, k1) \<Rightarrow>
               (case SimpleThreadPool_handler pool of
                  None \<Rightarrow> Some (Terminated k1, pool\<lparr>SimpleThreadPool_queue := q1\<rparr>)
                | Some h \<Rightarrow>
                    (case h e k1 of
                       (None, k2) \<Rightarrow> SimpleThreadPool_run env1 (pool\<lparr>SimpleThreadPool_queue := q1\<rparr>) k2
                     | (Some e', k2) \<Rightarrow> Some (Terminated k2, pool\<lparr>SimpleThreadPool_queue := q1\<rparr>)))))"
  by pat_completeness auto
termination SimpleThreadPool_run
  apply (relation "measures [\<lambda>(env, pool, k). length env,
      \<lambda>(env, pool, k). length (TaskQueue_queue (SimpleThreadPool_queue pool))]")
   apply simp
  apply (auto dest!: TaskQueue_getTask_progress)
  done

declare SimpleThreadPool_run.simps [simp del]

text \<open>
  A sequence of calls on a queue, each made under the lock, by whatever thread: the
  results of the \<^verbatim>\<open>getTask\<close> calls in order and the queue at the end, or \<open>None\<close> when one
  of the calls never returns.
\<close>

datatype 'a TaskQueue_call =
    Call_addTask "'a option"
  | Call_getTask "('a TaskQueue \<Rightarrow> 'a TaskQueue) list"
  | Call_stop

fun is_getTask :: "'a TaskQueue_call \<Rightarrow> bool" where
  "is_getTask (Call_getTask env) = True"
| "is_getTask c = False"

fun TaskQueue_calls :: "'a TaskQueue_call list \<Rightarrow> 'a TaskQueue \<Rightarrow> ('a option list \<times> 'a TaskQueue) option" where
  "TaskQueue_calls [] q = Some ([], q)"
| "TaskQueue_calls (Call_addTask task # cs) q = TaskQueue_calls cs (snd (TaskQueue_addTask task q))"
| "TaskQueue_calls (Call_stop # cs) q = TaskQueue_calls cs (TaskQueue_stop q)"
| "TaskQueue_calls (Call_getTask env # cs) q =
     (case TaskQueue_getTask env q of
        None \<Rightarrow> None
      | Some (r, q1, env1) \<Rightarrow>
          (case TaskQueue_calls cs q1 of
             None \<Rightarrow> None
           | Some (rs, q2) \<Rightarrow> Some (r # rs, q2)))"

text \<open>
  Examples: a queue holding one task; a task that throws 2; a handler that records the
  exception in the world; a pool without handler; a pool holding the throwing task; and
  what a waiting worker finds when a task was added and the queue stopped before it woke.
\<close>

definition queued_once :: "nat TaskQueue" where
  "queued_once = snd (TaskQueue_addTask (Some 5) TaskQueue_init)"

definition throws_two :: "nat \<Rightarrow> nat option \<times> nat" where
  "throws_two k = (Some 2, k)"

definition record_exception :: "nat \<Rightarrow> nat \<Rightarrow> nat option \<times> nat" where
  "record_exception e k = (None, k + 10 * e)"

definition sample_pool :: "(nat, nat) SimpleThreadPool" where
  "sample_pool = createSimple None"

definition throwing_pool :: "(nat \<Rightarrow> nat \<Rightarrow> nat option \<times> nat) option \<Rightarrow> (nat, nat) SimpleThreadPool" where
  "throwing_pool handler = snd (SimpleThreadPool_addTask (Some throws_two) (createSimple handler))"

definition add_then_stop :: "nat TaskQueue \<Rightarrow> nat TaskQueue" where
  "add_then_stop q = TaskQueue_stop (snd (TaskQueue_addTask (Some 5) q))"

section \<open>The delayed task of the timer (timer.cpp)\<close>

text \<open>
  A thread is known by its \<^verbatim>\<open>std::thread::id\<close>, and a captured exception
  (\<^verbatim>\<open>std::exception_ptr\<close>) by a number.
\<close>

type_synonym thread_id = nat
type_synonym exception_ptr = nat

text \<open>
  The phase objects of \<^verbatim>\<open>Timer::DelayedTask\<close>: the subclasses of \<^verbatim>\<open>State\<close> with their
  fields (\<^verbatim>\<open>_executor\<close> and \<^verbatim>\<open>_restartWanted\<close> of \<^verbatim>\<open>StateRunning\<close>, \<^verbatim>\<open>_ptr\<close> of
  \<^verbatim>\<open>StateException\<close>).
\<close>

datatype State =
    StateWaiting
  | StateRunning thread_id bool
  | StateDone
  | StateException exception_ptr
  | StateCancelled

text \<open>
  What a call of a method can touch besides the guarded handle: the phase objects, by
  address (\<^verbatim>\<open>restart\<close> on a running task sets \<^verbatim>\<open>_restartWanted\<close> in place); the next
  address \<^verbatim>\<open>std::make_shared\<close> hands out; and the phase objects whose condition
  variable was notified, in the order of the notifications. Addresses from \<open>fresh\<close> on are
  not allocated, and what the heap holds there is never read.
\<close>

record world =
  heap :: "addr \<Rightarrow> State"
  fresh :: addr
  notified :: "addr list"

definition make_shared :: "State \<Rightarrow> world \<Rightarrow> addr \<times> world" where
  "make_shared s w = (fresh w, w\<lparr>heap := (heap w)(fresh w := s), fresh := Suc (fresh w)\<rparr>)"

text \<open>
  The three ways a method ends: \<^verbatim>\<open>return std::make_shared<S>(task())\<close>, \<^verbatim>\<open>return b\<close>
  (also \<^verbatim>\<open>return {}\<close>, which is \<^verbatim>\<open>false\<close>), and \<^verbatim>\<open>std::rethrow_exception(_ptr)\<close>.
\<close>

definition transition :: "State \<Rightarrow> addr \<Rightarrow> world \<Rightarrow> ((exception_ptr + Request) \<times> addr \<times> world) option" where
  "transition s state w = (case make_shared s w of (p, w1) \<Rightarrow> Some (Inr (Request_ptr (Some p)), state, w1))"

definition reply :: "bool \<Rightarrow> addr \<Rightarrow> world \<Rightarrow> ((exception_ptr + Request) \<times> addr \<times> world) option" where
  "reply r state w = Some (Inr (Request_bool r), state, w)"

definition rethrow_exception :: "exception_ptr \<Rightarrow> addr \<Rightarrow> world \<Rightarrow> ((exception_ptr + Request) \<times> addr \<times> world) option" where
  "rethrow_exception ptr state w = Some (Inl ptr, state, w)"

text \<open>
  The virtual methods, dispatched on the phase object at \<open>persistent\<close>. The base class
  rejects (\<^verbatim>\<open>return {}\<close>); each subclass overrides some. \<open>self\<close> is the calling thread
  (\<^verbatim>\<open>std::this_thread::get_id()\<close>).
\<close>

definition State_run :: "thread_id \<Rightarrow> addr \<Rightarrow> addr \<Rightarrow> world \<Rightarrow> ((exception_ptr + Request) \<times> addr \<times> world) option" where
  "State_run self persistent state w =
     (case heap w persistent of
        StateWaiting \<Rightarrow> transition (StateRunning self False) state w
      | _ \<Rightarrow> reply False state w)"

text \<open>
  \<^verbatim>\<open>cancel(StateChanged)\<close>. On a running task the executor thread moves to
  \<^verbatim>\<open>StateCancelled\<close>; any other thread waits for \<^verbatim>\<open>changed\<close>, the witness comparing the
  guarded handle with \<open>persistent\<close>, and then rejects. The wait is on the condition
  variable \<^verbatim>\<open>_cv\<close> of the object the method is called on, the phase object at
  \<open>persistent\<close>: \<open>notified_between\<close> tells whether a step of the other threads notified it.
\<close>

definition notified_between :: "addr \<Rightarrow> addr \<times> world \<Rightarrow> addr \<times> world \<Rightarrow> bool" where
  "notified_between a s s' \<longleftrightarrow> a \<in> set (drop (length (notified (snd s))) (notified (snd s')))"

definition State_cancel ::
  "thread_id \<Rightarrow> (addr \<times> world \<Rightarrow> addr \<times> world) list \<Rightarrow> addr \<Rightarrow> addr \<Rightarrow> world
     \<Rightarrow> ((exception_ptr + Request) \<times> addr \<times> world) option" where
  "State_cancel self env persistent state w =
     (case heap w persistent of
        StateWaiting \<Rightarrow> transition StateCancelled state w
      | StateRunning executor restartWanted \<Rightarrow>
          if executor = self then transition StateCancelled state w
          else (case waitForNotification_cv (notified_between persistent)
                       (\<lambda>(shared, w). StateChanged shared persistent) env (state, w) of
                  None \<Rightarrow> None
                | Some ((state1, w1), env1) \<Rightarrow> reply False state1 w1)
      | StateDone \<Rightarrow> transition StateCancelled state w
      | StateException ptr \<Rightarrow> rethrow_exception ptr state w
      | StateCancelled \<Rightarrow> reply False state w)"

text \<open>
  \<^verbatim>\<open>DelayedTask::start\<close> and \<^verbatim>\<open>DelayedTask::reschedule\<close> call \<^verbatim>\<open>Timer::start\<close> and
  \<^verbatim>\<open>Timer::reschedule\<close>. These work on the queue of the timer, call \<^verbatim>\<open>task->cancel()\<close>
  when the queue refuses, and end with \<^verbatim>\<open>return !task->isCancelled();\<close>. Both
  \<^verbatim>\<open>cancel\<close> and \<^verbatim>\<open>isCancelled\<close> lock the \<^verbatim>\<open>std::mutex\<close> of \<^verbatim>\<open>_state\<close>. The only callers are
  the phase methods \<^verbatim>\<open>done\<close> and \<^verbatim>\<open>restart\<close>, which run under that lock, held by the same
  thread; the mutex is not recursive, so the lock is never acquired and the call never
  returns. The result would be what \<^verbatim>\<open>!task->isCancelled()\<close> gives, and the world then.
\<close>

definition Timer_start :: "world \<Rightarrow> (bool \<times> world) option" where
  "Timer_start w = None"

definition Timer_reschedule :: "world \<Rightarrow> (bool \<times> world) option" where
  "Timer_reschedule w = None"

text \<open>
  \<^verbatim>\<open>done()\<close>: with \<^verbatim>\<open>_restartWanted\<close> it asks the timer to start the task again.
\<close>

definition State_done :: "addr \<Rightarrow> addr \<Rightarrow> world \<Rightarrow> ((exception_ptr + Request) \<times> addr \<times> world) option" where
  "State_done persistent state w =
     (case heap w persistent of
        StateRunning executor restartWanted \<Rightarrow>
          if restartWanted then
            (case Timer_start w of
               None \<Rightarrow> None
             | Some (started, w1) \<Rightarrow>
                 if started then transition StateWaiting state w1 else reply False state w1)
          else transition StateDone state w
      | _ \<Rightarrow> reply False state w)"

definition State_exception :: "exception_ptr \<Rightarrow> addr \<Rightarrow> addr \<Rightarrow> world \<Rightarrow> ((exception_ptr + Request) \<times> addr \<times> world) option" where
  "State_exception ptr persistent state w =
     (case heap w persistent of
        StateRunning executor restartWanted \<Rightarrow> transition (StateException ptr) state w
      | _ \<Rightarrow> reply False state w)"

text \<open>
  \<^verbatim>\<open>restart()\<close>: on a waiting task \<^verbatim>\<open>task().reschedule(); return true;\<close>.
\<close>

definition State_restart :: "addr \<Rightarrow> addr \<Rightarrow> world \<Rightarrow> ((exception_ptr + Request) \<times> addr \<times> world) option" where
  "State_restart persistent state w =
     (case heap w persistent of
        StateWaiting \<Rightarrow>
          (case Timer_reschedule w of
             None \<Rightarrow> None
           | Some (rescheduled, w1) \<Rightarrow> reply True state w1)
      | StateRunning executor restartWanted \<Rightarrow>
          reply True state (w\<lparr>heap := (heap w)(persistent := StateRunning executor True)\<rparr>)
      | StateException ptr \<Rightarrow> rethrow_exception ptr state w
      | _ \<Rightarrow> reply False state w)"

text \<open>
  The predicates: \<^verbatim>\<open>false\<close> in the base class, overridden to \<^verbatim>\<open>true\<close> in one phase each;
  \<^verbatim>\<open>StateException::isDone\<close> rethrows.
\<close>

fun State_isWaiting :: "State \<Rightarrow> exception_ptr + bool" where
  "State_isWaiting StateWaiting = Inr True"
| "State_isWaiting s = Inr False"

fun State_isDone :: "State \<Rightarrow> exception_ptr + bool" where
  "State_isDone StateDone = Inr True"
| "State_isDone (StateException ptr) = Inl ptr"
| "State_isDone s = Inr False"

fun State_isRunning :: "State \<Rightarrow> exception_ptr + bool" where
  "State_isRunning (StateRunning executor restartWanted) = Inr True"
| "State_isRunning s = Inr False"

fun State_isCancelled :: "State \<Rightarrow> exception_ptr + bool" where
  "State_isCancelled StateCancelled = Inr True"
| "State_isCancelled s = Inr False"

text \<open>
  A delayed task: the guarded handle \<^verbatim>\<open>_state\<close> and the world around it. The constructor
  installs a fresh \<^verbatim>\<open>StateWaiting\<close>.
\<close>

record DelayedTask =
  DelayedTask_state :: addr
  DelayedTask_world :: world

definition DelayedTask_new :: DelayedTask where
  "DelayedTask_new =
     \<lparr>DelayedTask_state = 0,
      DelayedTask_world = \<lparr>heap = (\<lambda>a. StateCancelled)(0 := StateWaiting), fresh = 1, notified = []\<rparr>\<rparr>"

text \<open>
  \<^verbatim>\<open>State::call<member>\<close>: for a method that returns a \<^verbatim>\<open>Request\<close>, the switcher under
  the lock; for a predicate, the method of the current phase under the lock.
\<close>

definition State_call ::
  "(addr \<Rightarrow> addr \<Rightarrow> world \<Rightarrow> ((exception_ptr + Request) \<times> addr \<times> world) option)
     \<Rightarrow> DelayedTask \<Rightarrow> ((exception_ptr + bool) \<times> DelayedTask) option" where
  "State_call member t =
     (case BaseSwitcher (DelayedTask_state t) (DelayedTask_world t) member of
        None \<Rightarrow> None
      | Some (r, state1, w1) \<Rightarrow> Some (r, \<lparr>DelayedTask_state = state1, DelayedTask_world = w1\<rparr>))"

definition State_call_const :: "(State \<Rightarrow> exception_ptr + bool) \<Rightarrow> DelayedTask \<Rightarrow> exception_ptr + bool" where
  "State_call_const member t = member (heap (DelayedTask_world t) (DelayedTask_state t))"

text \<open>
  \<^verbatim>\<open>_state.notifyAll()\<close> notifies the condition variable of the phase object the guarded
  handle points to at that moment.
\<close>

definition notifyAll :: "DelayedTask \<Rightarrow> DelayedTask" where
  "notifyAll t = t\<lparr>DelayedTask_world := (DelayedTask_world t)
     \<lparr>notified := notified (DelayedTask_world t) @ [DelayedTask_state t]\<rparr>\<rparr>"

definition DelayedTask_cancel ::
  "thread_id \<Rightarrow> (addr \<times> world \<Rightarrow> addr \<times> world) list \<Rightarrow> DelayedTask
     \<Rightarrow> ((exception_ptr + bool) \<times> DelayedTask) option" where
  "DelayedTask_cancel self env t = State_call (State_cancel self env) t"

definition DelayedTask_restart :: "DelayedTask \<Rightarrow> ((exception_ptr + bool) \<times> DelayedTask) option" where
  "DelayedTask_restart t = State_call State_restart t"

definition DelayedTask_isWaiting :: "DelayedTask \<Rightarrow> exception_ptr + bool" where
  "DelayedTask_isWaiting t = State_call_const State_isWaiting t"

definition DelayedTask_isDone :: "DelayedTask \<Rightarrow> exception_ptr + bool" where
  "DelayedTask_isDone t = State_call_const State_isDone t"

definition DelayedTask_isRunning :: "DelayedTask \<Rightarrow> exception_ptr + bool" where
  "DelayedTask_isRunning t = State_call_const State_isRunning t"

definition DelayedTask_isCancelled :: "DelayedTask \<Rightarrow> exception_ptr + bool" where
  "DelayedTask_isCancelled t = State_call_const State_isCancelled t"


text \<open>
  \<^verbatim>\<open>DelayedTask::run\<close>. The body \<^verbatim>\<open>_task\<close> runs outside the lock: \<open>task\<close> is what it does to
  the delayed task meanwhile (through a handle, from this or another thread) and the
  exception it throws, if any. An exception of the body, or of \<^verbatim>\<open>call<done>\<close>, is caught
  and passed to \<^verbatim>\<open>call<exception>\<close>.
\<close>

definition DelayedTask_run ::
  "thread_id \<Rightarrow> (DelayedTask \<Rightarrow> exception_ptr option \<times> DelayedTask) \<Rightarrow> DelayedTask
     \<Rightarrow> ((exception_ptr + unit) \<times> DelayedTask) option" where
  "DelayedTask_run self task t =
     (case State_call (State_run self) t of
        None \<Rightarrow> None
      | Some (Inl e, t1) \<Rightarrow> Some (Inl e, t1)
      | Some (Inr False, t1) \<Rightarrow> Some (Inr (), t1)
      | Some (Inr True, t1) \<Rightarrow>
          (case
             (case task t1 of
                (Some e, t2) \<Rightarrow> State_call (State_exception e) t2
              | (None, t2) \<Rightarrow>
                  (case State_call State_done t2 of
                     Some (Inl e, t3) \<Rightarrow> State_call (State_exception e) t3
                   | r \<Rightarrow> r))
           of
             None \<Rightarrow> None
           | Some (Inl e, t4) \<Rightarrow> Some (Inl e, t4)
           | Some (Inr r, t4) \<Rightarrow> Some (Inr (), notifyAll t4)))"

text \<open>The phase object the guarded handle points to.\<close>

definition phase_of :: "DelayedTask \<Rightarrow> State" where
  "phase_of t = heap (DelayedTask_world t) (DelayedTask_state t)"

text \<open>
  Examples: a body that throws 7; the task it leaves; a body that cancels its own task and
  then throws; a task taken up by thread 1; what the worker does after the body has
  returned, while another thread waits (\<^verbatim>\<open>call<done>\<close> and \<^verbatim>\<open>notifyAll\<close>, the end of
  \<^verbatim>\<open>run\<close>); a notification of the phase object at address 1, which no function of the
  source makes once another phase is installed; and a body that returns at once.
\<close>

definition throws_seven :: "DelayedTask \<Rightarrow> exception_ptr option \<times> DelayedTask" where
  "throws_seven t = (Some 7, t)"


definition failed_task :: DelayedTask where
  "failed_task = snd (the (DelayedTask_run 1 throws_seven DelayedTask_new))"

definition cancels_itself_and_throws :: "DelayedTask \<Rightarrow> exception_ptr option \<times> DelayedTask" where
  "cancels_itself_and_throws t =
     (case DelayedTask_cancel 1 [] t of
        Some (r, t1) \<Rightarrow> (Some 7, t1)
      | None \<Rightarrow> (Some 7, t))"

definition running_task :: DelayedTask where
  "running_task = snd (the (State_call (State_run 1) DelayedTask_new))"

definition worker_completes :: "addr \<times> world \<Rightarrow> addr \<times> world" where
  "worker_completes s =
     (case State_call State_done \<lparr>DelayedTask_state = fst s, DelayedTask_world = snd s\<rparr> of
        Some (r, t) \<Rightarrow> (DelayedTask_state (notifyAll t), DelayedTask_world (notifyAll t))
      | None \<Rightarrow> s)"

definition notifies_waiter :: "addr \<times> world \<Rightarrow> addr \<times> world" where
  "notifies_waiter s = (fst s, (snd s)\<lparr>notified := notified (snd s) @ [1]\<rparr>)"

definition completes :: "DelayedTask \<Rightarrow> exception_ptr option \<times> DelayedTask" where
  "completes t = (None, t)"

section \<open>The due-time queue of the timer (timer.cpp)\<close>

text \<open>
  A time point of the steady clock is a count of nanoseconds and a delay
  (\<^verbatim>\<open>std::chrono::milliseconds\<close>) a count of milliseconds, each held in a signed 64-bit
  integer: the values from \<open>- 2 ^ 63\<close> up to \<open>2 ^ 63 - 1\<close>. A queued task is a
  \<^verbatim>\<open>std::shared_ptr<DelayedTask>\<close>, modelled by its address; \<open>delay\<close> gives the constant
  \<^verbatim>\<open>_delay\<close> of the task at an address, and \<open>now\<close> is what
  \<^verbatim>\<open>std::chrono::steady_clock::now()\<close> returns at the call.
\<close>

type_synonym TimePoint = int


text \<open>
  The 64-bit result of an operation whose exact result is \<open>x\<close>: \<open>x\<close> when it is
  representable, and otherwise the representable value that differs from it by a
  multiple of \<open>2 ^ 64\<close>, which is what the machine computes when the arithmetic
  overflows.
\<close>

definition wrap64 :: "int \<Rightarrow> int" where
  "wrap64 x = (x + 2 ^ 63) mod 2 ^ 64 - 2 ^ 63"

text \<open>
  \<^verbatim>\<open>DelayedTask::dueTime\<close> is \<^verbatim>\<open>std::chrono::steady_clock::now() + _delay\<close>: the delay is
  converted to nanoseconds (its count times 1000000) and added to the time since the
  epoch of the clock, both in 64-bit arithmetic.
\<close>

definition dueTime :: "(addr \<Rightarrow> int) \<Rightarrow> TimePoint \<Rightarrow> addr \<Rightarrow> TimePoint" where
  "dueTime delay now task = wrap64 (now + wrap64 (1000000 * delay task))"

text \<open>
  \<^verbatim>\<open>std::multimap::emplace\<close>: the map is a list of entries with ascending keys; the new
  entry goes after the entries whose key is not greater (the upper bound of its key).
  The result is the position of the new entry and the new list.
\<close>

fun multimap_emplace :: "TimePoint \<Rightarrow> 'v \<Rightarrow> (TimePoint \<times> 'v) list \<Rightarrow> nat \<times> (TimePoint \<times> 'v) list" where
  "multimap_emplace k v [] = (0, [(k, v)])"
| "multimap_emplace k v (e # es) =
     (if k < fst e then (0, (k, v) # e # es)
      else (case multimap_emplace k v es of (position, es') \<Rightarrow> (Suc position, e # es')))"

text \<open>
  \<^verbatim>\<open>Timer::Queue\<close>: the flag, the bound, the due-time order \<^verbatim>\<open>_queue\<close>, the reverse index
  \<^verbatim>\<open>_mapping\<close>, and the notifications made on its condition variable.
\<close>

record Queue =
  Queue_quit :: bool
  Queue_maxQueueSize :: nat
  Queue_queue :: "(TimePoint \<times> addr) list"
  Queue_mapping :: "addr \<rightharpoonup> TimePoint"
  Queue_signals :: "notification list"

definition Queue_init :: "nat \<Rightarrow> Queue" where
  "Queue_init maxQueueSize =
     \<lparr>Queue_quit = False, Queue_maxQueueSize = maxQueueSize, Queue_queue = [],
      Queue_mapping = Map.empty, Queue_signals = []\<rparr>"

definition Queue_stop :: "Queue \<Rightarrow> Queue" where
  "Queue_stop q = q\<lparr>Queue_quit := True, Queue_signals := Queue_signals q @ [NotifyOne]\<rparr>"

text \<open>
  \<^verbatim>\<open>placeTask\<close> notifies when the new entry is at \<^verbatim>\<open>_queue.begin()\<close>.
\<close>

definition placeTask :: "TimePoint \<Rightarrow> addr \<Rightarrow> Queue \<Rightarrow> Queue" where
  "placeTask due task q =
     (case multimap_emplace due task (Queue_queue q) of
        (position, es) \<Rightarrow>
          if position = 0
          then q\<lparr>Queue_queue := es, Queue_signals := Queue_signals q @ [NotifyOne]\<rparr>
          else q\<lparr>Queue_queue := es\<rparr>)"

text \<open>
  \<^verbatim>\<open>addTask\<close>: rejected when the queue was stopped or is full, and when
  \<^verbatim>\<open>_mapping.emplace\<close> finds the task already there.
\<close>

definition Queue_addTask :: "(addr \<Rightarrow> int) \<Rightarrow> TimePoint \<Rightarrow> addr \<Rightarrow> Queue \<Rightarrow> bool \<times> Queue" where
  "Queue_addTask delay now task q =
     (if Queue_quit q \<or> Queue_maxQueueSize q \<le> length (Queue_queue q) then (False, q)
      else
        (let due = dueTime delay now task in
         case Queue_mapping q task of
           Some present \<Rightarrow> (False, q)
         | None \<Rightarrow> (True, placeTask due task (q\<lparr>Queue_mapping := (Queue_mapping q)(task \<mapsto> due)\<rparr>))))"

text \<open>
  \<^verbatim>\<open>rescheduleTask\<close>: the loop over \<^verbatim>\<open>equal_range\<close> of the old due time erases the first
  entry of that key whose task is \<open>task\<close>; then the due time is computed anew.
\<close>

definition Queue_rescheduleTask :: "(addr \<Rightarrow> int) \<Rightarrow> TimePoint \<Rightarrow> addr \<Rightarrow> Queue \<Rightarrow> bool \<times> Queue" where
  "Queue_rescheduleTask delay now task q =
     (if Queue_quit q then (False, q)
      else
        (case Queue_mapping q task of
           None \<Rightarrow> (False, q)
         | Some old \<Rightarrow>
             (let q1 = q\<lparr>Queue_queue := remove1 (old, task) (Queue_queue q)\<rparr>;
                  due = dueTime delay now task;
                  q2 = q1\<lparr>Queue_mapping := (Queue_mapping q1)(task \<mapsto> due)\<rparr>
              in (True, placeTask due task q2))))"

text \<open>
  \<^verbatim>\<open>cancelAll\<close> calls \<^verbatim>\<open>cancel\<close> on every queued task, in order, and leaves the queue as
  it is: the result is the list of these tasks.
\<close>

definition Queue_cancelAll :: "Queue \<Rightarrow> addr list" where
  "Queue_cancelAll q = map snd (Queue_queue q)"

text \<open>
  \<^verbatim>\<open>nearestTask\<close> and \<^verbatim>\<open>taskIsReady\<close>. With an empty queue the latter compares
  \<^verbatim>\<open>TimePoint::max()\<close> with the clock, which is false: the clock, a count of nanoseconds
  since its epoch, is below the last time point.
\<close>

definition nearestTask :: "Queue \<Rightarrow> TimePoint option" where
  "nearestTask q = (case Queue_queue q of [] \<Rightarrow> None | e # es \<Rightarrow> Some (fst e))"

definition taskIsReady :: "TimePoint \<Rightarrow> Queue \<Rightarrow> bool" where
  "taskIsReady now q = (case nearestTask q of None \<Rightarrow> False | Some point \<Rightarrow> point \<le> now)"

text \<open>
  The wait with a time point is \<^verbatim>\<open>_cv.wait_until(*_lock, timePoint, predicate)\<close>, that is
  \<^verbatim>\<open>while (!predicate()) if (wait_until(lock, timePoint) == timeout) return predicate();\<close>.
  The state holds the clock (\<open>clock s\<close>), which the wake-ups advance; a wake-up at or after
  the time point is the timeout. The result is \<open>None\<close> when the wake-ups are used up.
\<close>

fun waitForNotification_until ::
  "('s \<Rightarrow> TimePoint) \<Rightarrow> TimePoint \<Rightarrow> ('s \<Rightarrow> bool) \<Rightarrow> ('s \<Rightarrow> 's) list \<Rightarrow> 's \<Rightarrow> ('s \<times> ('s \<Rightarrow> 's) list) option" where
  "waitForNotification_until clock timePoint predicate [] s =
     (if predicate s then Some (s, []) else None)"
| "waitForNotification_until clock timePoint predicate (step # env) s =
     (if predicate s then Some (s, step # env)
      else if timePoint \<le> clock (step s) then Some (step s, env)
      else waitForNotification_until clock timePoint predicate env (step s))"

lemma waitForNotification_until_suffix:
  "waitForNotification_until clock timePoint predicate env s = Some (s', env') \<Longrightarrow>
     length env' \<le> length env"
  by (induction env arbitrary: s) (auto split: if_splits simp: le_Suc_eq)

lemma waitForNotification_until_progress:
  "waitForNotification_until clock timePoint predicate env s = Some (s', env') \<Longrightarrow>
     \<not> predicate s \<Longrightarrow> length env' < length env"
  by (cases env) (auto split: if_splits dest: waitForNotification_until_suffix)

lemma waitForNotification_shorter:
  "waitForNotification predicate env s = Some (s', env') \<Longrightarrow>
     \<not> predicate s \<Longrightarrow> length env' < length env"
  by (cases env) (auto split: if_splits dest: waitForNotification_suffix)

text \<open>
  \<^verbatim>\<open>Queue::getTask\<close>, on the pair of the clock and the queue.
\<close>

function Queue_getTask ::
  "(TimePoint \<times> Queue \<Rightarrow> TimePoint \<times> Queue) list \<Rightarrow> TimePoint \<times> Queue
     \<Rightarrow> (addr option \<times> (TimePoint \<times> Queue) \<times> (TimePoint \<times> Queue \<Rightarrow> TimePoint \<times> Queue) list) option" where
  "Queue_getTask env s =
     (if \<not> Queue_quit (snd s) then
        (if taskIsReady (fst s) (snd s) then
           (let task = snd (hd (Queue_queue (snd s))) in
            Some (Some task,
                  (fst s, (snd s)\<lparr>Queue_queue := tl (Queue_queue (snd s)),
                                   Queue_mapping := (Queue_mapping (snd s))(task := None)\<rparr>),
                  env))
         else
           (case nearestTask (snd s) of
              Some point \<Rightarrow>
                (case waitForNotification_until fst point
                        (\<lambda>s. Queue_quit (snd s) \<or> taskIsReady (fst s) (snd s)) env s of
                   None \<Rightarrow> None
                 | Some (s1, env1) \<Rightarrow> Queue_getTask env1 s1)
            | None \<Rightarrow>
                (case waitForNotification
                        (\<lambda>s. Queue_quit (snd s) \<or> nearestTask (snd s) \<noteq> None) env s of
                   None \<Rightarrow> None
                 | Some (s1, env1) \<Rightarrow> Queue_getTask env1 s1)))
      else Some (None, s, env))"
  by pat_completeness auto
termination Queue_getTask
  apply (relation "measure (\<lambda>(env, s). length env)")
    apply simp
   apply (auto dest: waitForNotification_until_progress waitForNotification_shorter)
  done

declare Queue_getTask.simps [simp del]

text \<open>
  The invariant of the queue: the bound holds; the due-time order is ascending; no task
  is queued twice; and the reverse index holds exactly the entries of the due-time order.
\<close>

definition Queue_invariant :: "Queue \<Rightarrow> bool" where
  "Queue_invariant q \<longleftrightarrow>
     length (Queue_queue q) \<le> Queue_maxQueueSize q
     \<and> sorted (map fst (Queue_queue q))
     \<and> distinct (map snd (Queue_queue q))
     \<and> (\<forall>task due. Queue_mapping q task = Some due \<longleftrightarrow> (due, task) \<in> set (Queue_queue q))"


text \<open>
  Examples: every task has a delay of 100 ms; a queue of bound 2 with task 1 added at
  time 5, and with task 2 added at time 4 after it; a wake-up that advances the clock by
  200 ms; every task has the longest delay (\<^verbatim>\<open>std::chrono::milliseconds::max()\<close>); and
  every task has a delay of 9223372036854 ms, the longest whose count of nanoseconds is
  representable.
\<close>

definition fixed_delay :: "addr \<Rightarrow> int" where
  "fixed_delay task = 100"

definition one_queued :: Queue where
  "one_queued = snd (Queue_addTask fixed_delay 5 1 (Queue_init 2))"

definition two_queued :: Queue where
  "two_queued = snd (Queue_addTask fixed_delay 4 2 one_queued)"

definition clock_advances :: "TimePoint \<times> Queue \<Rightarrow> TimePoint \<times> Queue" where
  "clock_advances s = (fst s + 200000000, snd s)"



section \<open>Properties of the state engine\<close>

text \<open>
  C1, as the claim states it: when the phase was replaced during the call, the caller
  receives the accepted value the method computed. The code returns \<^verbatim>\<open>false\<close> there:
  a method that accepted (\<open>result = True\<close>) on the phase at address 0, while the phase at
  address 1 was installed, makes the call return \<open>False\<close>.
\<close>

theorem BaseSwitcher_stale_counterexample:
  "stale_accept 0 0 () = Some (Inr (Request_bool True), 1, ())
   \<and> StateChanged 1 0
   \<and> result (Request_bool True)
   \<and> BaseSwitcher 0 () stale_accept \<noteq> Some (Inr (result (Request_bool True)), 1, ())"
  by (simp add: BaseSwitcher_def stale_accept_def Request_bool_def StateChanged_def)

text \<open>
  C1, amended: when the guarded handle differs from the snapshot after the method has
  returned, the call installs no phase (the handle stays the one found after the method)
  and returns \<open>False\<close>, whatever the method accepted.
\<close>

theorem BaseSwitcher_stale:
  assumes "call state state w = Some (Inr req, state1, w1)"
    and "StateChanged state1 state"
  shows "BaseSwitcher state w call = Some (Inr False, state1, w1)"
  using assms by (simp add: BaseSwitcher_def StateChanged_def)

theorem BaseSwitcher_stale_witness:
  "stale_accept 0 0 () = Some (Inr (Request_bool True), 1, ())
   \<and> StateChanged 1 0
   \<and> BaseSwitcher 0 () stale_accept = Some (Inr False, 1, ())"
proof -
  have c: "stale_accept 0 0 () = Some (Inr (Request_bool True), 1, ())"
    by (simp add: stale_accept_def)
  have d: "StateChanged 1 0"
    by (simp add: StateChanged_def)
  from BaseSwitcher_stale [where call = stale_accept and state = 0 and w = "()", OF c d] c d
  show ?thesis by simp
qed

text \<open>
  C2: when the phase was not replaced during the call, a rejected request leaves the
  phase and yields \<open>False\<close>; an accepted request without a next phase leaves the phase
  and yields \<open>True\<close>; an accepted request with the next phase \<open>p\<close> installs \<open>p\<close> and
  yields \<open>True\<close>.
\<close>

theorem BaseSwitcher_request:
  assumes "call state state w = Some (Inr req, state, w1)"
  shows "(\<not> result req \<longrightarrow> BaseSwitcher state w call = Some (Inr False, state, w1))
       \<and> (result req \<and> newState req = None
            \<longrightarrow> BaseSwitcher state w call = Some (Inr True, state, w1))
       \<and> (\<forall>p. result req \<and> newState req = Some p
            \<longrightarrow> BaseSwitcher state w call = Some (Inr True, p, w1))"
  using assms by (auto simp add: BaseSwitcher_def split: option.splits)

theorem BaseSwitcher_request_witness:
  "BaseSwitcher 0 () (returns_request (Request_bool False)) = Some (Inr False, 0, ())
   \<and> BaseSwitcher 0 () (returns_request (Request_bool True)) = Some (Inr True, 0, ())
   \<and> BaseSwitcher 0 () (returns_request (Request_ptr (Some 7))) = Some (Inr True, 7, ())"
proof -
  have a: "returns_request (Request_bool False) 0 0 () = Some (Inr (Request_bool False), 0, ())"
    and b: "returns_request (Request_bool True) 0 0 () = Some (Inr (Request_bool True), 0, ())"
    and c: "returns_request (Request_ptr (Some 7)) 0 0 () = Some (Inr (Request_ptr (Some 7)), 0, ())"
    by (simp_all add: returns_request_def)
  from BaseSwitcher_request [where call = "returns_request (Request_bool False)", OF a]
    BaseSwitcher_request [where call = "returns_request (Request_bool True)", OF b]
    BaseSwitcher_request [where call = "returns_request (Request_ptr (Some 7))", OF c]
  show ?thesis by (simp add: Request_bool_def Request_ptr_def)
qed

section \<open>Properties of the worker pool\<close>

lemma TaskQueue_getTask_quit:
  "TaskQueue_quit q \<Longrightarrow> TaskQueue_getTask env q = Some (None, q, env)"
  by (simp add: TaskQueue_getTask.simps)

lemma TaskQueue_calls_quit:
  "TaskQueue_quit q \<Longrightarrow>
     \<exists>q'. TaskQueue_calls cs q = Some (replicate (length (filter is_getTask cs)) None, q')
          \<and> TaskQueue_queue q' = TaskQueue_queue q \<and> TaskQueue_quit q'"
proof (induction cs arbitrary: q)
  case Nil
  then show ?case by simp
next
  case (Cons c cs)
  show ?case
  proof (cases c)
    case (Call_addTask task)
    have "TaskQueue_addTask task q = (False, q)"
      using Cons.prems by (simp add: TaskQueue_addTask_def)
    with Cons.IH [OF Cons.prems] Call_addTask show ?thesis by simp
  next
    case (Call_getTask env)
    with Cons.IH [OF Cons.prems] TaskQueue_getTask_quit [OF Cons.prems, of env]
    show ?thesis by auto
  next
    case Call_stop
    have "TaskQueue_quit (TaskQueue_stop q)"
      and "TaskQueue_queue (TaskQueue_stop q) = TaskQueue_queue q"
      by (simp_all add: TaskQueue_stop_def)
    with Cons.IH [of "TaskQueue_stop q"] Call_stop show ?thesis by auto
  qed
qed

text \<open>
  C5, as the claim states it: after \<^verbatim>\<open>stop\<close> no task that was enqueued and not yet
  started is ever returned to a worker. A worker waits in \<^verbatim>\<open>getTask\<close> on the empty queue;
  task 5 is added and the queue is stopped before the worker has the lock again. The
  queue is then stopped and holds task 5. The worker wakes inside the loop, where the
  queue is looked at before \<^verbatim>\<open>_quit\<close> is: \<^verbatim>\<open>getTask\<close> returns task 5, from the stopped
  queue.
\<close>

theorem TaskQueue_getTask_after_stop_counterexample:
  "TaskQueue_quit (add_then_stop TaskQueue_init)
   \<and> TaskQueue_queue (add_then_stop TaskQueue_init) = [Some 5]
   \<and> TaskQueue_getTask [add_then_stop] TaskQueue_init
       = Some (Some 5,
               \<lparr>TaskQueue_quit = True, TaskQueue_queue = [], TaskQueue_signals = [NotifyOne, NotifyAll]\<rparr>,
               [])"
  by (simp add: TaskQueue_getTask.simps add_then_stop_def TaskQueue_addTask_def TaskQueue_stop_def
      TaskQueue_init_def)

text \<open>
  C5, amended: a \<^verbatim>\<open>getTask\<close> call that begins once \<^verbatim>\<open>stop\<close> has been called on the task
  queue returns at once with the empty task, whatever the queue holds and whatever other
  threads would do; and so does every \<^verbatim>\<open>getTask\<close> call in any sequence of later calls
  on the queue, at the end of which the tasks that were queued are still in the queue,
  never handed to a worker.
\<close>

theorem TaskQueue_getTask_after_stop:
  "TaskQueue_getTask env (TaskQueue_stop q) = Some (None, TaskQueue_stop q, env)
   \<and> (\<exists>q'. TaskQueue_calls cs (TaskQueue_stop q)
              = Some (replicate (length (filter is_getTask cs)) None, q')
          \<and> TaskQueue_queue q' = TaskQueue_queue q \<and> TaskQueue_quit q')"
proof -
  have s: "TaskQueue_quit (TaskQueue_stop q)"
    and k: "TaskQueue_queue (TaskQueue_stop q) = TaskQueue_queue q"
    by (simp_all add: TaskQueue_stop_def)
  from TaskQueue_getTask_quit [OF s] TaskQueue_calls_quit [OF s, of cs] k
  show ?thesis by simp
qed

theorem TaskQueue_getTask_after_stop_witness:
  "TaskQueue_queue queued_once = [Some 5]
   \<and> TaskQueue_getTask [] (TaskQueue_stop queued_once) = Some (None, TaskQueue_stop queued_once, [])
   \<and> map_option fst (TaskQueue_calls [Call_getTask [], Call_addTask (Some 6), Call_getTask []]
        (TaskQueue_stop queued_once)) = Some [None, None]
   \<and> map_option (TaskQueue_queue \<circ> snd)
        (TaskQueue_calls [Call_getTask [], Call_addTask (Some 6), Call_getTask []]
        (TaskQueue_stop queued_once)) = Some [Some 5]"
  using TaskQueue_getTask_after_stop
    [of "[]" queued_once "[Call_getTask [], Call_addTask (Some 6), Call_getTask []]"]
  by (auto simp add: queued_once_def TaskQueue_addTask_def TaskQueue_init_def)

text \<open>
  C7: \<^verbatim>\<open>addTask\<close> of the pool returns \<^verbatim>\<open>false\<close> exactly when the queue has been stopped
  or the task is empty; otherwise it appends the task at the end of the queue, notifies
  one waiting worker and returns \<^verbatim>\<open>true\<close>.
\<close>

theorem SimpleThreadPool_addTask_result:
  "(fst (SimpleThreadPool_addTask task pool) = False)
     = (TaskQueue_quit (SimpleThreadPool_queue pool) \<or> task = None)
   \<and> (\<not> (TaskQueue_quit (SimpleThreadPool_queue pool) \<or> task = None) \<longrightarrow>
        SimpleThreadPool_addTask task pool =
          (True, pool\<lparr>SimpleThreadPool_queue := (SimpleThreadPool_queue pool)
             \<lparr>TaskQueue_queue := TaskQueue_queue (SimpleThreadPool_queue pool) @ [task],
              TaskQueue_signals := TaskQueue_signals (SimpleThreadPool_queue pool) @ [NotifyOne]\<rparr>\<rparr>))"
  by (simp add: SimpleThreadPool_addTask_def TaskQueue_addTask_def)

theorem SimpleThreadPool_addTask_result_witness:
  "fst (SimpleThreadPool_addTask None sample_pool) = False
   \<and> fst (SimpleThreadPool_addTask (Some throws_two) (SimpleThreadPool_destroy sample_pool)) = False
   \<and> fst (SimpleThreadPool_addTask (Some throws_two) sample_pool) = True
   \<and> TaskQueue_queue (SimpleThreadPool_queue (snd (SimpleThreadPool_addTask (Some throws_two) sample_pool)))
       = [Some throws_two]"
  using SimpleThreadPool_addTask_result [of None sample_pool]
    SimpleThreadPool_addTask_result [of "Some throws_two" "SimpleThreadPool_destroy sample_pool"]
    SimpleThreadPool_addTask_result [of "Some throws_two" sample_pool]
  by (simp add: sample_pool_def createSimple_def TaskQueue_init_def SimpleThreadPool_destroy_def
      TaskQueue_stop_def)

text \<open>
  C8: when the task a worker has taken from the queue throws \<open>e\<close>, a pool constructed
  without a handler ends in \<^verbatim>\<open>std::terminate\<close>; a pool constructed with the handler \<open>h\<close>
  calls \<open>h\<close> on \<open>e\<close>, in the world the task left, and the worker goes on with the next
  task when \<open>h\<close> returns.
\<close>

theorem SimpleThreadPool_run_exception:
  assumes "TaskQueue_getTask env (SimpleThreadPool_queue pool) = Some (Some task, q1, env1)"
    and "task k = (Some e, k1)"
  shows "(SimpleThreadPool_handler pool = None \<longrightarrow>
            SimpleThreadPool_run env pool k
              = Some (Terminated k1, pool\<lparr>SimpleThreadPool_queue := q1\<rparr>))
       \<and> (\<forall>h. SimpleThreadPool_handler pool = Some h \<longrightarrow>
            SimpleThreadPool_run env pool k =
              (case h e k1 of
                 (None, k2) \<Rightarrow> SimpleThreadPool_run env1 (pool\<lparr>SimpleThreadPool_queue := q1\<rparr>) k2
               | (Some e', k2) \<Rightarrow> Some (Terminated k2, pool\<lparr>SimpleThreadPool_queue := q1\<rparr>)))"
  using assms by (simp add: SimpleThreadPool_run.simps [of env pool k])

lemma throwing_pool_fields:
  "SimpleThreadPool_handler (throwing_pool handler) = handler"
  "SimpleThreadPool_queue (throwing_pool handler)
     = \<lparr>TaskQueue_quit = False, TaskQueue_queue = [Some throws_two], TaskQueue_signals = [NotifyOne]\<rparr>"
  by (simp_all add: throwing_pool_def SimpleThreadPool_addTask_def createSimple_def
      TaskQueue_addTask_def TaskQueue_init_def)

theorem SimpleThreadPool_run_exception_witness:
  "TaskQueue_getTask [TaskQueue_stop] (SimpleThreadPool_queue (throwing_pool None))
     = Some (Some throws_two,
             \<lparr>TaskQueue_quit = False, TaskQueue_queue = [], TaskQueue_signals = [NotifyOne]\<rparr>,
             [TaskQueue_stop])
   \<and> throws_two 0 = (Some 2, 0)
   \<and> map_option fst (SimpleThreadPool_run [TaskQueue_stop] (throwing_pool None) 0)
       = Some (Terminated 0)
   \<and> map_option fst (SimpleThreadPool_run [TaskQueue_stop] (throwing_pool (Some record_exception)) 0)
       = Some (Returned 20)"
proof -
  let ?q = "\<lparr>TaskQueue_quit = False, TaskQueue_queue = [], TaskQueue_signals = [NotifyOne]\<rparr>
              :: (nat \<Rightarrow> nat option \<times> nat) TaskQueue"
  have g: "TaskQueue_getTask [TaskQueue_stop] (SimpleThreadPool_queue (throwing_pool handler))
     = Some (Some throws_two, ?q, [TaskQueue_stop])" for handler
    by (simp add: TaskQueue_getTask.simps throwing_pool_fields)
  have t: "throws_two 0 = (Some 2, 0)"
    by (simp add: throws_two_def)
  have r: "map_option fst (SimpleThreadPool_run [TaskQueue_stop]
             ((throwing_pool (Some record_exception))\<lparr>SimpleThreadPool_queue := ?q\<rparr>) 20)
           = Some (Returned 20)"
    by (simp add: SimpleThreadPool_run.simps TaskQueue_getTask.simps TaskQueue_stop_def)
  from SimpleThreadPool_run_exception [OF g t, of None]
    SimpleThreadPool_run_exception [OF g t, of "Some record_exception"] g [of None] t r
  show ?thesis by (simp add: record_exception_def throwing_pool_fields)
qed

section \<open>Properties of the delayed task\<close>

lemma call_Exception:
  assumes "phase_of t = StateException e"
  shows "DelayedTask_cancel caller env t = Some (Inl e, t)"
    and "DelayedTask_restart t = Some (Inl e, t)"
    and "State_call (State_run self) t = Some (Inr False, t)"
    and "State_call State_done t = Some (Inr False, t)"
    and "State_call (State_exception e') t = Some (Inr False, t)"
  using assms
  by (simp_all add: phase_of_def DelayedTask_cancel_def DelayedTask_restart_def State_call_def
      BaseSwitcher_def State_cancel_def State_restart_def State_run_def State_done_def
      State_exception_def rethrow_exception_def reply_def Request_bool_def)

lemma call_exception_Running:
  assumes "phase_of t = StateRunning executor restartWanted"
  shows "\<exists>t'. State_call (State_exception e) t = Some (Inr True, t') \<and> phase_of t' = StateException e
           \<and> phase_of (notifyAll t') = StateException e"
  using assms
  by (simp add: phase_of_def State_call_def BaseSwitcher_def State_exception_def transition_def
      make_shared_def Request_ptr_def notifyAll_def)

lemma run_new:
  "State_call (State_run 1) DelayedTask_new = Some (Inr True, running_task)"
  "phase_of running_task = StateRunning 1 False"
  by (simp_all add: running_task_def State_call_def BaseSwitcher_def State_run_def DelayedTask_new_def
      transition_def make_shared_def Request_ptr_def phase_of_def)

lemma failed_task_run:
  "DelayedTask_run 1 throws_seven DelayedTask_new = Some (Inr (), failed_task)"
  "phase_of failed_task = StateException 7"
  by (simp_all add: failed_task_def DelayedTask_run_def State_call_def BaseSwitcher_def State_run_def
      State_exception_def DelayedTask_new_def transition_def make_shared_def Request_ptr_def
      throws_seven_def notifyAll_def phase_of_def)

text \<open>
  C3, as the claim states it: after the body has thrown, every status query rethrows the
  captured exception, the status predicates other than \<^verbatim>\<open>isDone\<close> included. On the task
  whose body threw 7, \<^verbatim>\<open>isWaiting\<close>, \<^verbatim>\<open>isRunning\<close> and \<^verbatim>\<open>isCancelled\<close> return \<^verbatim>\<open>false\<close>
  and throw nothing: \<^verbatim>\<open>StateException\<close> overrides \<^verbatim>\<open>cancel\<close>, \<^verbatim>\<open>restart\<close> and \<^verbatim>\<open>isDone\<close> only.
\<close>

theorem DelayedTask_exception_counterexample:
  "DelayedTask_run 1 throws_seven DelayedTask_new = Some (Inr (), failed_task)
   \<and> phase_of failed_task = StateException 7
   \<and> DelayedTask_isWaiting failed_task = Inr False
   \<and> DelayedTask_isRunning failed_task = Inr False
   \<and> DelayedTask_isCancelled failed_task = Inr False
   \<and> DelayedTask_isWaiting failed_task \<noteq> Inl 7"
  using failed_task_run
  by (simp add: phase_of_def DelayedTask_isWaiting_def DelayedTask_isRunning_def
      DelayedTask_isCancelled_def State_call_const_def)

text \<open>
  The phase moves to \<^verbatim>\<open>StateException\<close> from \<^verbatim>\<open>StateRunning\<close> only. A body that cancels
  its own task on the executor thread and then throws leaves the task cancelled: the
  base class rejects \<^verbatim>\<open>exception\<close> there.
\<close>

lemma cancelled_task_drops_exception:
  "map_option (phase_of \<circ> snd) (DelayedTask_run 1 cancels_itself_and_throws DelayedTask_new)
     = Some StateCancelled"
  by (simp add: DelayedTask_run_def State_call_def BaseSwitcher_def State_run_def State_cancel_def
      State_exception_def DelayedTask_new_def transition_def make_shared_def Request_ptr_def
      Request_bool_def reply_def cancels_itself_and_throws_def DelayedTask_cancel_def
      notifyAll_def phase_of_def)

text \<open>
  C3, amended: when \<^verbatim>\<open>run\<close> was accepted and the body throws \<open>e\<close> while the task is
  still in the running phase, \<^verbatim>\<open>run\<close> returns with the task in \<^verbatim>\<open>StateException\<close> holding
  \<open>e\<close>. On that task \<^verbatim>\<open>cancel\<close> (from any thread), \<^verbatim>\<open>restart\<close> and \<^verbatim>\<open>isDone\<close> rethrow \<open>e\<close>,
  while \<^verbatim>\<open>isWaiting\<close>, \<^verbatim>\<open>isRunning\<close> and \<^verbatim>\<open>isCancelled\<close> return \<^verbatim>\<open>false\<close>. No call changes
  the task any more, so this holds for every later query as well.
\<close>

theorem DelayedTask_exception:
  assumes "State_call (State_run self) t = Some (Inr True, t1)"
    and "task t1 = (Some e, t2)"
    and "phase_of t2 = StateRunning executor restartWanted"
  shows "\<exists>t'. DelayedTask_run self task t = Some (Inr (), t')
           \<and> phase_of t' = StateException e
           \<and> (\<forall>caller env. DelayedTask_cancel caller env t' = Some (Inl e, t'))
           \<and> DelayedTask_restart t' = Some (Inl e, t')
           \<and> DelayedTask_isDone t' = Inl e
           \<and> DelayedTask_isWaiting t' = Inr False
           \<and> DelayedTask_isRunning t' = Inr False
           \<and> DelayedTask_isCancelled t' = Inr False
           \<and> (\<forall>caller. State_call (State_run caller) t' = Some (Inr False, t'))
           \<and> State_call State_done t' = Some (Inr False, t')
           \<and> (\<forall>e'. State_call (State_exception e') t' = Some (Inr False, t'))"
proof -
  from call_exception_Running [OF assms(3), of e] obtain t3
    where t3: "State_call (State_exception e) t2 = Some (Inr True, t3)"
      and p: "phase_of (notifyAll t3) = StateException e"
    by blast
  from assms(1,2) t3 have r: "DelayedTask_run self task t = Some (Inr (), notifyAll t3)"
    by (simp add: DelayedTask_run_def)
  from p have q: "DelayedTask_isDone (notifyAll t3) = Inl e"
    "DelayedTask_isWaiting (notifyAll t3) = Inr False"
    "DelayedTask_isRunning (notifyAll t3) = Inr False"
    "DelayedTask_isCancelled (notifyAll t3) = Inr False"
    by (simp_all add: phase_of_def DelayedTask_isDone_def DelayedTask_isWaiting_def
        DelayedTask_isRunning_def DelayedTask_isCancelled_def State_call_const_def)
  from r p q call_Exception [OF p] show ?thesis by simp
qed

theorem DelayedTask_exception_witness:
  "State_call (State_run 1) DelayedTask_new = Some (Inr True, running_task)
   \<and> throws_seven running_task = (Some 7, running_task)
   \<and> phase_of running_task = StateRunning 1 False
   \<and> DelayedTask_run 1 throws_seven DelayedTask_new = Some (Inr (), failed_task)
   \<and> phase_of failed_task = StateException 7
   \<and> DelayedTask_cancel 2 [] failed_task = Some (Inl 7, failed_task)
   \<and> DelayedTask_restart failed_task = Some (Inl 7, failed_task)
   \<and> DelayedTask_isDone failed_task = Inl 7"
proof -
  have b: "throws_seven running_task = (Some 7, running_task)"
    by (simp add: throws_seven_def)
  from DelayedTask_exception [where task = throws_seven, OF run_new(1) b run_new(2)] failed_task_run run_new b
  show ?thesis by auto
qed

lemma cancel_executor:
  assumes "phase_of t = StateRunning executor restartWanted"
  shows "\<exists>t'. DelayedTask_cancel executor env t = Some (Inr True, t') \<and> phase_of t' = StateCancelled"
  using assms
  by (simp add: phase_of_def DelayedTask_cancel_def State_call_def BaseSwitcher_def State_cancel_def
      transition_def make_shared_def Request_ptr_def)

lemma blocked_None:
  assumes "\<And>step s. step \<in> set env \<Longrightarrow> notifies s (step s) \<Longrightarrow> \<not> predicate (step s)"
  shows "blocked notifies predicate env s = None"
  using assms
proof (induction env arbitrary: s)
  case Nil
  show ?case by simp
next
  case (Cons step env)
  have "\<not> (notifies s (step s) \<and> predicate (step s))"
    using Cons.prems [of step s] by auto
  moreover have "blocked notifies predicate env (step s) = None"
    by (rule Cons.IH) (rule Cons.prems, simp_all)
  ultimately show ?case by simp
qed

lemma waitForNotification_cv_always:
  "waitForNotification_cv (\<lambda>s s'. True) predicate env s = waitForNotification predicate env s"
proof (induction env arbitrary: s)
  case Nil
  show ?case by (simp add: waitForNotification_cv_def)
next
  case (Cons step env)
  from Cons.IH [of "step s"] show ?case
    by (simp add: waitForNotification_cv_def)
qed

text \<open>
  A thread other than the executor that calls \<^verbatim>\<open>cancel\<close> on a running task returns only
  when a step of the other threads notifies the condition variable of the running phase
  object at a moment when the guarded handle points elsewhere. When every step that
  notifies that object leaves the handle pointing to it, the call never returns.
\<close>

lemma cancel_other_blocked:
  assumes "phase_of t = StateRunning executor restartWanted" and "self \<noteq> executor"
    and "\<And>step s. step \<in> set env \<Longrightarrow> notified_between (DelayedTask_state t) s (step s)
           \<Longrightarrow> fst (step s) = DelayedTask_state t"
  shows "DelayedTask_cancel self env t = None"
proof -
  have "blocked (notified_between (DelayedTask_state t))
          (\<lambda>(shared, w). StateChanged shared (DelayedTask_state t)) env
          (DelayedTask_state t, DelayedTask_world t) = None"
  proof (rule blocked_None)
    fix step and s :: "addr \<times> world"
    assume "step \<in> set env" "notified_between (DelayedTask_state t) s (step s)"
    then have "fst (step s) = DelayedTask_state t" by (rule assms(3))
    then show "\<not> (case step s of (shared, w) \<Rightarrow> StateChanged shared (DelayedTask_state t))"
      by (cases "step s") (simp add: StateChanged_def)
  qed
  with assms(1,2) show ?thesis
    by (simp add: phase_of_def DelayedTask_cancel_def State_call_def BaseSwitcher_def State_cancel_def
        waitForNotification_cv_def StateChanged_def)
qed

text \<open>
  The end of \<^verbatim>\<open>run\<close> notifies the phase object it leaves installed and no other: the
  condition variable \<^verbatim>\<open>_state.notifyAll()\<close> reaches is the one of \<^verbatim>\<open>*_object\<close>.
\<close>

lemma State_done_notified:
  assumes "State_call State_done \<lparr>DelayedTask_state = state, DelayedTask_world = w\<rparr> = Some (r, t)"
  shows "notified (DelayedTask_world t) = notified w"
proof (cases "heap w state")
  case (StateRunning executor restartWanted)
  with assms show ?thesis
    by (cases restartWanted)
      (auto simp add: State_call_def BaseSwitcher_def State_done_def Timer_start_def transition_def
        make_shared_def Request_ptr_def)
qed (use assms in \<open>auto simp add: State_call_def BaseSwitcher_def State_done_def reply_def
        Request_bool_def\<close>)

lemma worker_completes_notifies:
  assumes "notified_between a s (worker_completes s)"
  shows "fst (worker_completes s) = a"
proof (cases "State_call State_done \<lparr>DelayedTask_state = fst s, DelayedTask_world = snd s\<rparr>")
  case None
  with assms show ?thesis by (simp add: worker_completes_def notified_between_def)
next
  case (Some r)
  obtain x t where r: "r = (x, t)" by (cases r)
  from Some r have "notified (DelayedTask_world t) = notified (snd s)"
    by (simp add: State_done_notified)
  with assms Some r show ?thesis
    by (simp add: worker_completes_def notified_between_def notifyAll_def)
qed

lemma running_task_state:
  "DelayedTask_state running_task = 1"
  by (simp add: running_task_def State_call_def BaseSwitcher_def State_run_def DelayedTask_new_def
      transition_def make_shared_def Request_ptr_def)

lemma worker_completes_running_task:
  "fst (worker_completes (DelayedTask_state running_task, DelayedTask_world running_task)) = 2"
  "heap (snd (worker_completes (DelayedTask_state running_task, DelayedTask_world running_task))) 2
     = StateDone"
  "notified (snd (worker_completes (DelayedTask_state running_task, DelayedTask_world running_task)))
     = [2]"
  by (simp_all add: worker_completes_def running_task_def State_call_def BaseSwitcher_def State_run_def
      State_done_def DelayedTask_new_def transition_def make_shared_def Request_ptr_def notifyAll_def)

text \<open>
  \<open>worker_completes\<close> is what \<^verbatim>\<open>run\<close> does after a body that returns: the task \<^verbatim>\<open>run\<close>
  leaves is the one \<open>worker_completes\<close> makes of \<open>running_task\<close>.
\<close>

lemma run_completes:
  "DelayedTask_run 1 completes DelayedTask_new =
     Some (Inr (),
       \<lparr>DelayedTask_state = fst (worker_completes (DelayedTask_state running_task, DelayedTask_world running_task)),
        DelayedTask_world = snd (worker_completes (DelayedTask_state running_task, DelayedTask_world running_task))\<rparr>)"
  by (simp add: DelayedTask_run_def worker_completes_def running_task_def State_call_def BaseSwitcher_def
      State_run_def State_done_def DelayedTask_new_def transition_def make_shared_def Request_ptr_def
      completes_def notifyAll_def)

lemma cancel_executor_running_task:
  "map_option fst (DelayedTask_cancel 1 [] running_task) = Some (Inr True)"
  "map_option (phase_of \<circ> snd) (DelayedTask_cancel 1 [] running_task) = Some StateCancelled"
  using cancel_executor [OF run_new(2), of "[]"] by auto

text \<open>
  A wake-up of the waiter does end the wait once the phase has changed: after the worker
  has completed, a notification of the running phase object makes \<^verbatim>\<open>cancel\<close> return
  \<^verbatim>\<open>false\<close>, with the task done.
\<close>

lemma cancel_other_woken:
  "map_option fst (DelayedTask_cancel 2 [worker_completes, notifies_waiter] running_task)
     = Some (Inr False)"
  "map_option (phase_of \<circ> snd) (DelayedTask_cancel 2 [worker_completes, notifies_waiter] running_task)
     = Some StateDone"
  by (simp_all add: DelayedTask_cancel_def State_cancel_def waitForNotification_cv_def
      notified_between_def StateChanged_def notifies_waiter_def worker_completes_def running_task_def
      State_call_def BaseSwitcher_def State_run_def State_done_def DelayedTask_new_def transition_def
      make_shared_def Request_ptr_def Request_bool_def reply_def notifyAll_def phase_of_def)

text \<open>
  C4: the half of the claim about the executor thread holds (lemma \<open>cancel_executor\<close>):
  \<^verbatim>\<open>cancel\<close> installs \<^verbatim>\<open>StateCancelled\<close> and returns \<^verbatim>\<open>true\<close>. The half about any other
  thread fails. Thread 1 has taken up a new task, so the running phase is the object at
  address 1, and thread 2 calls \<^verbatim>\<open>cancel\<close>: it waits on the condition variable of that
  object. Then the body returns and thread 1 ends \<^verbatim>\<open>run\<close>: \<^verbatim>\<open>call<done>\<close> installs
  \<^verbatim>\<open>StateDone\<close> at address 2, and \<^verbatim>\<open>_state.notifyAll()\<close> notifies the condition variable
  of the object at address 2. The phase has changed, thread 2 is not woken, and its
  \<^verbatim>\<open>cancel\<close> does not return. Were the object at address 1 notified after that, the call
  would return \<^verbatim>\<open>false\<close>.
\<close>

theorem StateRunning_cancel_not_woken:
  "phase_of running_task = StateRunning 1 False
   \<and> DelayedTask_state running_task = 1
   \<and> DelayedTask_run 1 completes DelayedTask_new =
       Some (Inr (),
         \<lparr>DelayedTask_state = fst (worker_completes (DelayedTask_state running_task, DelayedTask_world running_task)),
          DelayedTask_world = snd (worker_completes (DelayedTask_state running_task, DelayedTask_world running_task))\<rparr>)
   \<and> fst (worker_completes (DelayedTask_state running_task, DelayedTask_world running_task)) = 2
   \<and> heap (snd (worker_completes (DelayedTask_state running_task, DelayedTask_world running_task))) 2
       = StateDone
   \<and> notified (snd (worker_completes (DelayedTask_state running_task, DelayedTask_world running_task)))
       = [2]
   \<and> DelayedTask_cancel 2 [worker_completes] running_task = None
   \<and> map_option fst (DelayedTask_cancel 2 [worker_completes, notifies_waiter] running_task)
       = Some (Inr False)
   \<and> map_option fst (DelayedTask_cancel 1 [] running_task) = Some (Inr True)
   \<and> map_option (phase_of \<circ> snd) (DelayedTask_cancel 1 [] running_task) = Some StateCancelled"
proof -
  have "DelayedTask_cancel 2 [worker_completes] running_task = None"
  proof (rule cancel_other_blocked [OF run_new(2)])
    show "(2::nat) \<noteq> 1" by simp
  next
    fix step and s :: "addr \<times> world"
    assume "step \<in> set [worker_completes]"
      and "notified_between (DelayedTask_state running_task) s (step s)"
    then show "fst (step s) = DelayedTask_state running_task"
      by (simp add: worker_completes_notifies)
  qed
  with run_new(2) running_task_state run_completes worker_completes_running_task
    cancel_other_woken(1) cancel_executor_running_task
  show ?thesis by simp
qed

section \<open>Properties of the due-time queue\<close>

lemma multimap_emplace_set:
  "set (snd (multimap_emplace k v es)) = insert (k, v) (set es)"
  by (induction es) (auto split: prod.splits)

lemma multimap_emplace_length:
  "length (snd (multimap_emplace k v es)) = Suc (length es)"
  by (induction es) (auto split: prod.splits)

lemma multimap_emplace_result:
  "multimap_emplace k v es = (position, es') \<Longrightarrow> set es' = insert (k, v) (set es)"
  using multimap_emplace_set [of k v es] by simp

lemma multimap_emplace_sorted:
  "sorted (map fst es) \<Longrightarrow> sorted (map fst (snd (multimap_emplace k v es)))"
proof (induction es)
  case Nil
  then show ?case by simp
next
  case (Cons e es)
  show ?case
  proof (cases "k < fst e")
    case True
    with Cons.prems show ?thesis by auto
  next
    case False
    obtain position es' where r: "multimap_emplace k v es = (position, es')"
      by (cases "multimap_emplace k v es")
    from Cons r have "sorted (map fst es')" by simp
    moreover from Cons.prems False multimap_emplace_result [OF r]
    have "\<forall>x\<in>set es'. fst e \<le> fst x" by auto
    ultimately show ?thesis using False r by simp
  qed
qed

lemma multimap_emplace_distinct:
  "distinct (map snd es) \<Longrightarrow> v \<notin> snd ` set es \<Longrightarrow>
     distinct (map snd (snd (multimap_emplace k v es)))"
proof (induction es)
  case Nil
  then show ?case by simp
next
  case (Cons e es)
  show ?case
  proof (cases "k < fst e")
    case True
    with Cons.prems show ?thesis by auto
  next
    case False
    obtain position es' where r: "multimap_emplace k v es = (position, es')"
      by (cases "multimap_emplace k v es")
    from Cons r have "distinct (map snd es')" by simp
    moreover from Cons.prems multimap_emplace_result [OF r]
    have "snd e \<notin> snd ` set es'" by auto
    ultimately show ?thesis using False r by simp
  qed
qed

lemma multimap_emplace_position:
  "fst (multimap_emplace k v es) = 0 \<longleftrightarrow> es = [] \<or> k < fst (hd es)"
  by (cases es) (auto split: prod.splits)

lemma multimap_emplace_hd:
  "hd (snd (multimap_emplace k v es)) = (if es = [] \<or> k < fst (hd es) then (k, v) else hd es)"
  by (cases es) (auto split: prod.splits)

lemma placeTask_fields:
  "Queue_queue (placeTask due task q) = snd (multimap_emplace due task (Queue_queue q))"
  "Queue_mapping (placeTask due task q) = Queue_mapping q"
  "Queue_quit (placeTask due task q) = Queue_quit q"
  "Queue_maxQueueSize (placeTask due task q) = Queue_maxQueueSize q"
  "Queue_signals (placeTask due task q) =
     (if Queue_queue q = [] \<or> due < fst (hd (Queue_queue q))
      then Queue_signals q @ [NotifyOne] else Queue_signals q)"
  using multimap_emplace_position [of due task "Queue_queue q"]
  by (auto simp add: placeTask_def split: prod.splits)

lemma agreement_update:
  assumes "\<forall>t d. t \<noteq> task \<longrightarrow> (m t = Some d \<longleftrightarrow> (d, t) \<in> S)" and "task \<notin> snd ` S"
  shows "\<forall>t d. (m(task \<mapsto> due)) t = Some d \<longleftrightarrow> (d, t) \<in> insert (due, task) S"
proof (intro allI)
  fix t d
  show "(m(task \<mapsto> due)) t = Some d \<longleftrightarrow> (d, t) \<in> insert (due, task) S"
  proof (cases "t = task")
    case True
    from assms(2) have "(d, task) \<notin> S" by force
    with True show ?thesis by auto
  next
    case False
    with assms(1) show ?thesis by simp
  qed
qed

lemma Queue_invariant_absent:
  assumes "Queue_invariant q" and "Queue_mapping q task = None"
  shows "task \<notin> snd ` set (Queue_queue q)"
proof
  assume "task \<in> snd ` set (Queue_queue q)"
  then obtain d where "(d, task) \<in> set (Queue_queue q)" by force
  with assms(1) have "Queue_mapping q task = Some d" by (simp add: Queue_invariant_def)
  with assms(2) show False by simp
qed

lemma Queue_addTask_invariant:
  assumes "Queue_invariant q"
  shows "Queue_invariant (snd (Queue_addTask delay now task q))"
proof (cases "Queue_quit q \<or> Queue_maxQueueSize q \<le> length (Queue_queue q) \<or> Queue_mapping q task \<noteq> None")
  case True
  with assms show ?thesis by (auto simp add: Queue_addTask_def Let_def)
next
  case False
  let ?due = "dueTime delay now task"
  let ?q = "placeTask ?due task (q\<lparr>Queue_mapping := (Queue_mapping q)(task \<mapsto> ?due)\<rparr>)"
  from False have r: "snd (Queue_addTask delay now task q) = ?q"
    by (simp add: Queue_addTask_def Let_def)
  from False assms have a: "task \<notin> snd ` set (Queue_queue q)"
    by (simp add: Queue_invariant_absent)
  have 1: "length (Queue_queue ?q) \<le> Queue_maxQueueSize ?q"
    using False by (simp add: placeTask_fields multimap_emplace_length)
  have 2: "sorted (map fst (Queue_queue ?q))"
    using assms by (simp add: placeTask_fields multimap_emplace_sorted Queue_invariant_def)
  have 3: "distinct (map snd (Queue_queue ?q))"
    using assms a by (simp add: placeTask_fields multimap_emplace_distinct Queue_invariant_def)
  from assms have "\<forall>t d. t \<noteq> task \<longrightarrow> (Queue_mapping q t = Some d \<longleftrightarrow> (d, t) \<in> set (Queue_queue q))"
    by (simp add: Queue_invariant_def)
  from agreement_update [OF this a, of ?due]
  have 4: "\<forall>t d. Queue_mapping ?q t = Some d \<longleftrightarrow> (d, t) \<in> set (Queue_queue ?q)"
    by (simp add: placeTask_fields multimap_emplace_set)
  from 1 2 3 4 show ?thesis unfolding r Queue_invariant_def by blast
qed

lemma distinct_map_snd_remove1:
  "distinct (map snd es) \<Longrightarrow> distinct (map snd (remove1 e es))"
proof (induction es)
  case Nil
  then show ?case by simp
next
  case (Cons x es)
  have "snd ` set (remove1 e es) \<subseteq> snd ` set es"
    using set_remove1_subset [of e es] by blast
  with Cons show ?case by auto
qed

lemma Queue_rescheduleTask_invariant:
  assumes "Queue_invariant q"
  shows "Queue_invariant (snd (Queue_rescheduleTask delay now task q))"
proof (cases "Queue_quit q \<or> Queue_mapping q task = None")
  case True
  with assms show ?thesis by (auto simp add: Queue_rescheduleTask_def)
next
  case False
  then obtain old where old: "Queue_mapping q task = Some old" by auto
  let ?due = "dueTime delay now task"
  let ?es = "remove1 (old, task) (Queue_queue q)"
  let ?q = "placeTask ?due task (q\<lparr>Queue_queue := ?es, Queue_mapping := (Queue_mapping q)(task \<mapsto> ?due)\<rparr>)"
  from False old have r: "snd (Queue_rescheduleTask delay now task q) = ?q"
    by (simp add: Queue_rescheduleTask_def Let_def)
  from assms have d: "distinct (map snd (Queue_queue q))" and dq: "distinct (Queue_queue q)"
    by (auto simp add: Queue_invariant_def distinct_map)
  from assms old have m: "(old, task) \<in> set (Queue_queue q)"
    by (simp add: Queue_invariant_def)
  from dq have s: "set ?es = set (Queue_queue q) - {(old, task)}"
    by simp
  have a: "task \<notin> snd ` set ?es"
  proof
    assume "task \<in> snd ` set ?es"
    then obtain x where x: "(x, task) \<in> set ?es" by force
    with s have x': "(x, task) \<in> set (Queue_queue q)" "x \<noteq> old" by auto
    from x'(1) assms have "Queue_mapping q task = Some x" by (simp add: Queue_invariant_def)
    with old x'(2) show False by simp
  qed
  from m have "0 < length (Queue_queue q)"
    by (rule length_pos_if_in_set)
  with m have "Suc (length ?es) = length (Queue_queue q)"
    by (simp add: length_remove1)
  with assms have 1: "length (Queue_queue ?q) \<le> Queue_maxQueueSize ?q"
    by (simp add: placeTask_fields multimap_emplace_length Queue_invariant_def)
  have 2: "sorted (map fst (Queue_queue ?q))"
    using assms by (simp add: placeTask_fields multimap_emplace_sorted Queue_invariant_def sorted_map_remove1)
  have 3: "distinct (map snd (Queue_queue ?q))"
    using d a by (simp add: placeTask_fields multimap_emplace_distinct distinct_map_snd_remove1)
  from assms have "\<forall>t d. t \<noteq> task \<longrightarrow> (Queue_mapping q t = Some d \<longleftrightarrow> (d, t) \<in> set ?es)"
    by (auto simp add: Queue_invariant_def s)
  from agreement_update [OF this a, of ?due]
  have 4: "\<forall>t d. Queue_mapping ?q t = Some d \<longleftrightarrow> (d, t) \<in> set (Queue_queue ?q)"
    by (simp add: placeTask_fields multimap_emplace_set)
  from 1 2 3 4 show ?thesis unfolding r Queue_invariant_def by blast
qed

lemma waitForNotification_preserves:
  assumes "waitForNotification predicate env s = Some (s', env')"
    and "Q s" and "\<forall>step\<in>set env. \<forall>s. Q s \<longrightarrow> Q (step s)"
  shows "Q s' \<and> set env' \<subseteq> set env"
  using assms by (induction env arbitrary: s) (auto split: if_splits)

lemma waitForNotification_until_preserves:
  assumes "waitForNotification_until clock timePoint predicate env s = Some (s', env')"
    and "Q s" and "\<forall>step\<in>set env. \<forall>s. Q s \<longrightarrow> Q (step s)"
  shows "Q s' \<and> set env' \<subseteq> set env"
  using assms by (induction env arbitrary: s) (auto split: if_splits)

lemma Queue_pop_invariant:
  assumes "Queue_invariant q" and "Queue_queue q \<noteq> []"
  shows "Queue_invariant (q\<lparr>Queue_queue := tl (Queue_queue q),
           Queue_mapping := (Queue_mapping q)(snd (hd (Queue_queue q)) := None)\<rparr>)"
proof -
  from assms(2) obtain d t es where q: "Queue_queue q = (d, t) # es"
    by (cases "Queue_queue q") auto
  from assms(1) q have t: "t \<notin> snd ` set es" and "distinct (map snd es)" and "sorted (map fst es)"
    and "length es \<le> Queue_maxQueueSize q"
    and m: "\<forall>t' d'. Queue_mapping q t' = Some d' \<longleftrightarrow> (d', t') \<in> set ((d, t) # es)"
    by (auto simp add: Queue_invariant_def)
  moreover have "\<forall>t' d'. ((Queue_mapping q)(t := None)) t' = Some d' \<longleftrightarrow> (d', t') \<in> set es"
  proof (intro allI)
    fix t' d'
    show "((Queue_mapping q)(t := None)) t' = Some d' \<longleftrightarrow> (d', t') \<in> set es"
    proof (cases "t' = t")
      case True
      from t have "(d', t) \<notin> set es" by force
      with True show ?thesis by simp
    next
      case False
      with m show ?thesis by simp
    qed
  qed
  ultimately show ?thesis by (simp add: Queue_invariant_def q)
qed

lemma Queue_getTask_invariant:
  assumes "Queue_getTask env s = Some (r, s', env')"
    and "Queue_invariant (snd s)"
    and "\<forall>step\<in>set env. \<forall>s. Queue_invariant (snd s) \<longrightarrow> Queue_invariant (snd (step s))"
  shows "Queue_invariant (snd s')"
  using assms
proof (induction env s rule: Queue_getTask.induct)
  case (1 env s)
  let ?Q = "\<lambda>s. Queue_invariant (snd s)"
  note got = "1.prems"(1) [unfolded Queue_getTask.simps [of env s]]
  show ?case
  proof (cases "Queue_quit (snd s)")
    case True
    with got "1.prems"(2) show ?thesis by simp
  next
    case quit: False
    show ?thesis
    proof (cases "taskIsReady (fst s) (snd s)")
      case True
      then have "Queue_queue (snd s) \<noteq> []"
        by (auto simp add: taskIsReady_def nearestTask_def)
      from Queue_pop_invariant [OF "1.prems"(2) this] got quit True show ?thesis
        by (auto simp add: Let_def)
    next
      case ready: False
      show ?thesis
      proof (cases "nearestTask (snd s)")
        case None
        with got quit ready obtain s1 env1
          where w: "waitForNotification (\<lambda>s. Queue_quit (snd s) \<or> nearestTask (snd s) \<noteq> None) env s
                      = Some (s1, env1)"
            and g: "Queue_getTask env1 s1 = Some (r, s', env')"
          by (auto split: option.splits)
        from waitForNotification_preserves [OF w, of ?Q] "1.prems"(2,3)
        have "?Q s1" "set env1 \<subseteq> set env" by auto
        with "1.IH"(1) [OF quit ready None w refl g] "1.prems"(3) show ?thesis
          by auto
      next
        case (Some point)
        with got quit ready obtain s1 env1
          where w: "waitForNotification_until fst point
                      (\<lambda>s. Queue_quit (snd s) \<or> taskIsReady (fst s) (snd s)) env s = Some (s1, env1)"
            and g: "Queue_getTask env1 s1 = Some (r, s', env')"
          by (auto split: option.splits)
        from waitForNotification_until_preserves [OF w, of ?Q] "1.prems"(2,3)
        have "?Q s1" "set env1 \<subseteq> set env" by auto
        with "1.IH"(2) [OF quit ready Some w refl g] "1.prems"(3) show ?thesis
          by auto
      qed
    qed
  qed
qed

lemma Queue_stop_invariant:
  "Queue_invariant q \<Longrightarrow> Queue_invariant (Queue_stop q)"
  by (simp add: Queue_invariant_def Queue_stop_def)

lemma Queue_init_invariant:
  "Queue_invariant (Queue_init maxQueueSize)"
  by (simp add: Queue_invariant_def Queue_init_def)

lemma Queue_addTask_rejected:
  "Queue_quit q \<or> Queue_maxQueueSize q \<le> length (Queue_queue q) \<Longrightarrow>
     Queue_addTask delay now task q = (False, q)"
  by (simp add: Queue_addTask_def)

lemma Queue_addTask_accepted:
  assumes "Queue_addTask delay now task q = (True, q')"
  shows "q' = placeTask (dueTime delay now task) task
           (q\<lparr>Queue_mapping := (Queue_mapping q)(task \<mapsto> dueTime delay now task)\<rparr>)"
    and "Queue_mapping q task = None" and "\<not> Queue_quit q"
  using assms
  by (auto simp add: Queue_addTask_def Let_def split: if_splits option.splits)

lemma Queue_addTask_effect:
  assumes "Queue_addTask delay now task q = (True, q')"
  shows "Queue_mapping q' = (Queue_mapping q)(task \<mapsto> dueTime delay now task)"
    and "set (Queue_queue q') = insert (dueTime delay now task, task) (set (Queue_queue q))"
    and "length (Queue_queue q') = Suc (length (Queue_queue q))"
    and "Queue_signals q' =
           (if Queue_queue q = [] \<or> dueTime delay now task < fst (hd (Queue_queue q))
            then Queue_signals q @ [NotifyOne] else Queue_signals q)"
    and "Queue_quit q' = Queue_quit q"
  by (simp_all add: Queue_addTask_accepted(1) [OF assms] placeTask_fields multimap_emplace_set
      multimap_emplace_length)

lemma Queue_addTask_earliest:
  assumes "Queue_addTask delay now task q = (True, q')" and "Queue_invariant q"
  shows "hd (Queue_queue q') = (dueTime delay now task, task)
           \<longleftrightarrow> Queue_queue q = [] \<or> dueTime delay now task < fst (hd (Queue_queue q))"
proof (cases "Queue_queue q = [] \<or> dueTime delay now task < fst (hd (Queue_queue q))")
  case True
  then show ?thesis
    by (simp add: Queue_addTask_accepted(1) [OF assms(1)] placeTask_fields multimap_emplace_hd)
next
  case False
  then have "hd (Queue_queue q) \<in> set (Queue_queue q)" by simp
  moreover from Queue_invariant_absent [OF assms(2) Queue_addTask_accepted(2) [OF assms(1)]]
  have "(dueTime delay now task, task) \<notin> set (Queue_queue q)" by force
  ultimately have "hd (Queue_queue q) \<noteq> (dueTime delay now task, task)" by metis
  with False show ?thesis
    by (simp add: Queue_addTask_accepted(1) [OF assms(1)] placeTask_fields multimap_emplace_hd)
qed

lemma one_queued_fields:
  "Queue_queue one_queued = [(100000005, 1)]"
  "Queue_mapping one_queued = [1 \<mapsto> 100000005]"
  "Queue_signals one_queued = [NotifyOne]"
  "Queue_quit one_queued = False"
  "Queue_maxQueueSize one_queued = 2"
  by (simp_all add: one_queued_def Queue_addTask_def Queue_init_def dueTime_def wrap64_def
      fixed_delay_def placeTask_def)

lemma one_queued_invariant:
  "Queue_invariant one_queued"
  unfolding one_queued_def by (rule Queue_addTask_invariant) (rule Queue_init_invariant)

lemma two_queued_fields:
  "Queue_addTask fixed_delay 4 2 one_queued = (True, two_queued)"
  "Queue_queue two_queued = [(100000004, 2), (100000005, 1)]"
  "Queue_signals two_queued = [NotifyOne, NotifyOne]"
  "Queue_quit two_queued = False"
  "Queue_maxQueueSize two_queued = 2"
  by (simp_all add: two_queued_def Queue_addTask_def one_queued_fields dueTime_def wrap64_def
      fixed_delay_def placeTask_def)

lemma getTask_example:
  "map_option fst (Queue_getTask [clock_advances] (0, two_queued)) = Some (Some 2)"
  "map_option (Queue_queue \<circ> snd \<circ> fst \<circ> snd) (Queue_getTask [clock_advances] (0, two_queued)) = Some [(100000005, 1)]"
  by (simp_all add: Queue_getTask.simps two_queued_fields taskIsReady_def nearestTask_def
      clock_advances_def)

text \<open>
  C6: \<^verbatim>\<open>addTask\<close> returns \<^verbatim>\<open>false\<close> and leaves the queue as it is when the queue was
  stopped or already holds \<^verbatim>\<open>_maxQueueSize\<close> tasks. A successful \<^verbatim>\<open>addTask\<close> enters the task
  with its due time into the due-time order and into the reverse index, and notifies the
  dispatcher exactly when the new entry was placed at the front of the due-time order,
  which (on a queue satisfying the invariant) is when the new task is the first of the
  order. The invariant (the bound on the length and the agreement of the two maps) holds
  for a new queue and is kept by \<^verbatim>\<open>addTask\<close>, \<^verbatim>\<open>rescheduleTask\<close>, \<^verbatim>\<open>stop\<close> and
  \<^verbatim>\<open>getTask\<close>, the latter when the other threads' steps during its waits keep it too.
\<close>

theorem Queue_addTask_bounded:
  "(Queue_quit q \<or> Queue_maxQueueSize q \<le> length (Queue_queue q)
      \<longrightarrow> Queue_addTask delay now task q = (False, q))
   \<and> (\<forall>q'. Queue_addTask delay now task q = (True, q') \<longrightarrow>
          Queue_mapping q' = (Queue_mapping q)(task \<mapsto> dueTime delay now task)
        \<and> set (Queue_queue q') = insert (dueTime delay now task, task) (set (Queue_queue q))
        \<and> length (Queue_queue q') = Suc (length (Queue_queue q))
        \<and> Queue_signals q' =
            (if Queue_queue q = [] \<or> dueTime delay now task < fst (hd (Queue_queue q))
             then Queue_signals q @ [NotifyOne] else Queue_signals q)
        \<and> (Queue_invariant q \<longrightarrow>
             (hd (Queue_queue q') = (dueTime delay now task, task)
                \<longleftrightarrow> Queue_queue q = [] \<or> dueTime delay now task < fst (hd (Queue_queue q)))))
   \<and> (Queue_invariant q \<longrightarrow>
          Queue_invariant (snd (Queue_addTask delay now task q))
        \<and> Queue_invariant (snd (Queue_rescheduleTask delay now task q))
        \<and> Queue_invariant (Queue_stop q)
        \<and> (\<forall>env clock r s' env'.
              (\<forall>step\<in>set env. \<forall>s. Queue_invariant (snd s) \<longrightarrow> Queue_invariant (snd (step s)))
              \<longrightarrow> Queue_getTask env (clock, q) = Some (r, s', env')
              \<longrightarrow> Queue_invariant (snd s')))
   \<and> Queue_invariant (Queue_init maxQueueSize)"
proof (intro conjI impI allI)
  assume "Queue_quit q \<or> Queue_maxQueueSize q \<le> length (Queue_queue q)"
  then show "Queue_addTask delay now task q = (False, q)" by (rule Queue_addTask_rejected)
next
  fix q' assume a: "Queue_addTask delay now task q = (True, q')"
  from Queue_addTask_effect [OF a]
  show "Queue_mapping q' = (Queue_mapping q)(task \<mapsto> dueTime delay now task)"
    and "set (Queue_queue q') = insert (dueTime delay now task, task) (set (Queue_queue q))"
    and "length (Queue_queue q') = Suc (length (Queue_queue q))"
    and "Queue_signals q' =
            (if Queue_queue q = [] \<or> dueTime delay now task < fst (hd (Queue_queue q))
             then Queue_signals q @ [NotifyOne] else Queue_signals q)"
    by simp_all
  assume "Queue_invariant q"
  with a show "hd (Queue_queue q') = (dueTime delay now task, task)
                \<longleftrightarrow> Queue_queue q = [] \<or> dueTime delay now task < fst (hd (Queue_queue q))"
    by (rule Queue_addTask_earliest)
next
  assume i: "Queue_invariant q"
  then show "Queue_invariant (snd (Queue_addTask delay now task q))"
    by (rule Queue_addTask_invariant)
  from i show "Queue_invariant (snd (Queue_rescheduleTask delay now task q))"
    by (rule Queue_rescheduleTask_invariant)
  from i show "Queue_invariant (Queue_stop q)"
    by (rule Queue_stop_invariant)
  fix env :: "(TimePoint \<times> Queue \<Rightarrow> TimePoint \<times> Queue) list" and clock r s' env'
  assume "\<forall>step\<in>set env. \<forall>s. Queue_invariant (snd s) \<longrightarrow> Queue_invariant (snd (step s))"
    and "Queue_getTask env (clock, q) = Some (r, s', env')"
  with i show "Queue_invariant (snd s')"
    using Queue_getTask_invariant [of env "(clock, q)" r s' env'] by simp
next
  show "Queue_invariant (Queue_init maxQueueSize)" by (rule Queue_init_invariant)
qed

theorem Queue_addTask_bounded_witness:
  "Queue_addTask fixed_delay 5 1 (Queue_stop (Queue_init 2)) = (False, Queue_stop (Queue_init 2))
   \<and> Queue_addTask fixed_delay 9 3 two_queued = (False, two_queued)
   \<and> Queue_addTask fixed_delay 4 2 one_queued = (True, two_queued)
   \<and> Queue_queue one_queued = [(100000005, 1)]
   \<and> Queue_queue two_queued = [(100000004, 2), (100000005, 1)]
   \<and> Queue_mapping two_queued = (Queue_mapping one_queued)(2 \<mapsto> 100000004)
   \<and> Queue_signals one_queued = [NotifyOne]
   \<and> Queue_signals two_queued = [NotifyOne, NotifyOne]
   \<and> Queue_invariant one_queued
   \<and> Queue_invariant two_queued
   \<and> Queue_invariant (snd (Queue_rescheduleTask fixed_delay 7 1 two_queued))
   \<and> Queue_invariant (Queue_stop two_queued)
   \<and> map_option fst (Queue_getTask [clock_advances] (0, two_queued)) = Some (Some 2)"
proof -
  note init = Queue_addTask_bounded [of "Queue_init 2" fixed_delay 5 1 2]
  note stopped = Queue_addTask_bounded [of "Queue_stop (Queue_init 2)" fixed_delay 5 1 2]
  note one = Queue_addTask_bounded [of one_queued fixed_delay 4 2 2]
  note two = Queue_addTask_bounded [of two_queued fixed_delay 9 3 2]
  note two' = Queue_addTask_bounded [of two_queued fixed_delay 7 1 2]
  have q: "Queue_quit (Queue_stop (Queue_init 2))"
    by (simp add: Queue_stop_def)
  from stopped q have a: "Queue_addTask fixed_delay 5 1 (Queue_stop (Queue_init 2))
      = (False, Queue_stop (Queue_init 2))"
    by blast
  have "Queue_maxQueueSize two_queued \<le> length (Queue_queue two_queued)"
    by (simp add: two_queued_fields)
  with two have b: "Queue_addTask fixed_delay 9 3 two_queued = (False, two_queued)"
    by blast
  from one two_queued_fields(1)
  have c: "Queue_mapping two_queued = (Queue_mapping one_queued)(2 \<mapsto> dueTime fixed_delay 4 2)"
    by blast
  have d: "dueTime fixed_delay 4 2 = 100000004"
    by (simp add: dueTime_def wrap64_def fixed_delay_def)
  from init have "Queue_invariant (Queue_init 2)" by blast
  with init have i1: "Queue_invariant one_queued" unfolding one_queued_def by blast
  with one have i2: "Queue_invariant two_queued" unfolding two_queued_def by blast
  with two' have i3: "Queue_invariant (snd (Queue_rescheduleTask fixed_delay 7 1 two_queued))"
    and i4: "Queue_invariant (Queue_stop two_queued)"
    by blast+
  from a b c d i1 i2 i3 i4 show ?thesis
    by (simp add: one_queued_fields two_queued_fields getTask_example)
qed




text \<open>
  \<^verbatim>\<open>restart\<close> on a waiting task is the caller of \<^verbatim>\<open>Timer::reschedule\<close>, under the lock of
  the state of the task: the call does not return.
\<close>

lemma restart_waiting:
  "DelayedTask_restart DelayedTask_new = None"
  by (simp add: DelayedTask_restart_def State_call_def BaseSwitcher_def State_restart_def
      Timer_reschedule_def DelayedTask_new_def)



section \<open>Properties of the scoped release\<close>






end
